theory Spec2Isabelle
  imports Complex_Main
begin

section \<open>Data model\<close>

text \<open>
  The program works on \<open>std::vector<size_t>\<close> and on \<open>size_t\<close> indices. Indices and
  values are natural numbers here. A vector holds fewer than \<open>2^61\<close> elements of eight
  bytes, so the sums \<open>minIndex + maxIndex\<close> and \<open>guessIndex + 1\<close> stay below \<open>2^64\<close> and
  are plain additions. A decrement of an unsigned zero would wrap around, and an element
  read past the end of the vector is undefined; both are outcomes of the model
  (\<open>Underflow\<close>, \<open>OutOfBounds\<close>), at which it stops.
\<close>

datatype error = Underflow | OutOfBounds | Uninitialised | DivideByZero

text \<open>
  \<open>struct TestResults { bool found; size_t index; size_t guesses; }\<close>. The searches
  declare \<open>TestResults ret;\<close> and several of them never assign \<open>ret.index\<close> on some
  paths: the field is \<open>None\<close> until it is assigned.
\<close>

record TestResults =
  found :: bool
  index :: "nat option"
  guesses :: nat

text \<open>One pass through the body of a \<open>while (1)\<close> loop either goes round again or returns.\<close>

datatype ('s, 'r) step = Continue 's | Done 'r

text \<open>\<open>values[i]\<close>\<close>

definition vec_at :: "nat list \<Rightarrow> nat \<Rightarrow> error + nat" where
  "vec_at values i = (if i < length values then Inr (values ! i) else Inl OutOfBounds)"

text \<open>\<open>n - 1\<close> on \<open>size_t\<close>\<close>

definition dec :: "nat \<Rightarrow> error + nat" where
  "dec n = (if n = 0 then Inl Underflow else Inr (n - 1))"

text \<open>\<open>template <typename T> T Clamp(T min, T max, T value)\<close>\<close>

definition Clamp :: "'a::ord \<Rightarrow> 'a \<Rightarrow> 'a \<Rightarrow> 'a" where
  "Clamp mn mx v = (if v < mn then mn else if v > mx then mx else v)"

lemma Clamp_nat_cases:
  fixes lo hi v :: nat
  shows "Clamp lo hi v = lo \<or> Clamp lo hi v = hi \<or> (lo \<le> Clamp lo hi v \<and> Clamp lo hi v \<le> hi)"
  by (simp add: Clamp_def)

section \<open>Linear search\<close>

function LinearSearch_loop :: "nat list \<Rightarrow> nat \<Rightarrow> TestResults \<Rightarrow> error + TestResults" where
  "LinearSearch_loop values searchValue ret =
     (case index ret of
        None \<Rightarrow> Inl Uninitialised
      | Some i \<Rightarrow>
          if i \<ge> length values then Inr ret
          else
            let ret = ret\<lparr>guesses := guesses ret + 1\<rparr> in
            (case vec_at values i of
               Inl e \<Rightarrow> Inl e
             | Inr v \<Rightarrow>
                 if v = searchValue then Inr (ret\<lparr>found := True\<rparr>)
                 else if v > searchValue then Inr ret
                 else LinearSearch_loop values searchValue (ret\<lparr>index := Some (i + 1)\<rparr>)))"
  by pat_completeness auto
termination
  by (relation "measure (\<lambda>(values, searchValue, ret). length values - the (index ret))") auto

declare LinearSearch_loop.simps [simp del]

definition TestList_LinearSearch :: "nat list \<Rightarrow> nat \<Rightarrow> error + TestResults" where
  "TestList_LinearSearch values searchValue =
     LinearSearch_loop values searchValue \<lparr>found = False, index = Some 0, guesses = 0\<rparr>"

section \<open>Binary search\<close>

record bracket =
  minIndex :: nat
  maxIndex :: nat
  ret :: TestResults

text \<open>The \<open>fail case\<close> test that ends the loop body.\<close>

definition BinarySearch_check :: "bracket \<Rightarrow> error + (bracket, TestResults) step" where
  "BinarySearch_check st =
     (if minIndex st > maxIndex st then Inr (Done (ret st)) else Inr (Continue st))"

definition BinarySearch_body :: "nat list \<Rightarrow> nat \<Rightarrow> bracket \<Rightarrow> error + (bracket, TestResults) step" where
  "BinarySearch_body values searchValue st =
     (let r = (ret st)\<lparr>guesses := guesses (ret st) + 1\<rparr>;
          guessIndex = (minIndex st + maxIndex st) div 2
      in case vec_at values guessIndex of
           Inl e \<Rightarrow> Inl e
         | Inr guess \<Rightarrow>
             if guess = searchValue then
               Inr (Done (r\<lparr>found := True, index := Some guessIndex\<rparr>))
             else if guess < searchValue then
               BinarySearch_check (st\<lparr>minIndex := guessIndex + 1, ret := r\<rparr>)
             else if guess > searchValue then
               (if guessIndex = 0 then Inr (Done r)
                else case dec guessIndex of
                       Inl e \<Rightarrow> Inl e
                     | Inr mx \<Rightarrow> BinarySearch_check (st\<lparr>maxIndex := mx, ret := r\<rparr>))
             else BinarySearch_check (st\<lparr>ret := r\<rparr>))"

lemma BinarySearch_body_decreases:
  assumes "BinarySearch_body values searchValue st = Inr (Continue st')"
  shows "maxIndex st' + 1 - minIndex st' < maxIndex st + 1 - minIndex st"
  using assms
  by (auto simp: BinarySearch_body_def BinarySearch_check_def Let_def dec_def vec_at_def
           split: sum.splits if_splits)

function BinarySearch_loop :: "nat list \<Rightarrow> nat \<Rightarrow> bracket \<Rightarrow> error + TestResults" where
  "BinarySearch_loop values searchValue st =
     (case BinarySearch_body values searchValue st of
        Inl e \<Rightarrow> Inl e
      | Inr (Done r) \<Rightarrow> Inr r
      | Inr (Continue st') \<Rightarrow> BinarySearch_loop values searchValue st')"
  by pat_completeness auto
termination
  by (relation "measure (\<lambda>(values, searchValue, st). maxIndex st + 1 - minIndex st)")
     (auto dest: BinarySearch_body_decreases)

declare BinarySearch_loop.simps [simp del]

definition TestList_BinarySearch :: "nat list \<Rightarrow> nat \<Rightarrow> error + TestResults" where
  "TestList_BinarySearch values searchValue =
     (case dec (length values) of
        Inl e \<Rightarrow> Inl e
      | Inr mx \<Rightarrow>
          BinarySearch_loop values searchValue
            \<lparr>minIndex = 0, maxIndex = mx, ret = \<lparr>found = False, index = None, guesses = 0\<rparr>\<rparr>)"

section \<open>Line fit\<close>

text \<open>
  The line \<open>y = m x + b\<close> is kept in \<open>float\<close>. IEEE arithmetic is outside this
  development, so the three float expressions of the source are parameters:
  \<^item> \<open>slope ops max min maxIndex minIndex\<close> stands for
    \<open>(float(max) - float(min)) / float(maxIndex - minIndex)\<close>,
  \<^item> \<open>intercept ops min m minIndex\<close> for \<open>float(min) - m * float(minIndex)\<close>,
  \<^item> \<open>estimate ops searchValue b m\<close> for \<open>size_t(0.5f + (float(searchValue) - b) / m)\<close>.
  Every statement about the line fit holds for all \<open>ops\<close>, that is for whatever index the
  float expression yields.
\<close>

record 'f float_ops =
  slope :: "nat \<Rightarrow> nat \<Rightarrow> nat \<Rightarrow> nat \<Rightarrow> 'f"
  intercept :: "nat \<Rightarrow> 'f \<Rightarrow> nat \<Rightarrow> 'f"
  estimate :: "nat \<Rightarrow> 'f \<Rightarrow> 'f \<Rightarrow> nat"

text \<open>The same expressions in exact rational arithmetic, to run the searches on inputs.\<close>

definition exact_ops :: "rat float_ops" where
  "exact_ops =
     \<lparr>slope = (\<lambda>mx mn maxI minI. (of_nat mx - of_nat mn) / of_nat (maxI - minI)),
      intercept = (\<lambda>mn m minI. of_nat mn - m * of_nat minI),
      estimate = (\<lambda>searchValue b m. nat \<lfloor>1 / 2 + (of_nat searchValue - b) / m\<rfloor>)\<rparr>"

record 'f linefit = bracket +
  minV :: nat
  maxV :: nat
  fm :: 'f
  fb :: 'f

text \<open>\<open>m = ...; b = ...;\<close> (\<open>fit a line to the end points\<close>, \<open>fit a new line\<close>)\<close>

definition fit_line :: "'f float_ops \<Rightarrow> ('f, 'z) linefit_scheme \<Rightarrow> ('f, 'z) linefit_scheme" where
  "fit_line ops st =
     (let m = slope ops (maxV st) (minV st) (maxIndex st) (minIndex st);
          b = intercept ops (minV st) m (minIndex st)
      in st\<lparr>fm := m, fb := b\<rparr>)"

text \<open>
  \<open>if we were too low, this is our new minimum\<close>, \<open>else we were too high, this is our
  new maximum\<close>: the same lines in \<open>TestList_LineFit\<close> and \<open>TestList_HybridSearch\<close>.
\<close>

definition narrow :: "nat \<Rightarrow> nat \<Rightarrow> nat \<Rightarrow> ('f, 'z) linefit_scheme \<Rightarrow> ('f, 'z) linefit_scheme" where
  "narrow searchValue guessIndex guess st =
     (if guess < searchValue
      then st\<lparr>minIndex := guessIndex, minV := guess\<rparr>
      else st\<lparr>maxIndex := guessIndex, maxV := guess\<rparr>)"

text \<open>The index the loop body reads: the estimate, clamped.\<close>

definition LineFit_probe :: "'f float_ops \<Rightarrow> nat \<Rightarrow> 'f linefit \<Rightarrow> error + nat" where
  "LineFit_probe ops searchValue st =
     (let guessIndex = estimate ops searchValue (fb st) (fm st) in
      case dec (maxIndex st) of
        Inl e \<Rightarrow> Inl e
      | Inr hi \<Rightarrow> Inr (Clamp (minIndex st + 1) hi guessIndex))"

definition LineFit_body ::
    "'f float_ops \<Rightarrow> nat list \<Rightarrow> nat \<Rightarrow> 'f linefit \<Rightarrow> error + ('f linefit, TestResults) step" where
  "LineFit_body ops values searchValue st =
     (let r = (ret st)\<lparr>guesses := guesses (ret st) + 1\<rparr> in
      case LineFit_probe ops searchValue st of
        Inl e \<Rightarrow> Inl e
      | Inr guessIndex \<Rightarrow>
          (case vec_at values guessIndex of
             Inl e \<Rightarrow> Inl e
           | Inr guess \<Rightarrow>
               if guess = searchValue then Inr (Done (r\<lparr>index := Some guessIndex\<rparr>))
               else
                 let st1 = narrow searchValue guessIndex guess st
                 in if minIndex st1 + 1 \<ge> maxIndex st1 then Inr (Done (r\<lparr>found := False\<rparr>))
                    else Inr (Continue (fit_line ops (st1\<lparr>ret := r\<rparr>)))))"

lemma LineFit_probe_cases:
  assumes "LineFit_probe ops searchValue st = Inr g"
  shows "0 < maxIndex st \<and>
         (g = minIndex st + 1 \<or> g = maxIndex st - 1 \<or> (minIndex st + 1 \<le> g \<and> g \<le> maxIndex st - 1))"
  using assms Clamp_nat_cases [of "minIndex st + 1" "maxIndex st - 1" "estimate ops searchValue (fb st) (fm st)"]
  by (auto simp: LineFit_probe_def dec_def Let_def split: if_splits)

lemma LineFit_body_decreases:
  assumes "LineFit_body ops values searchValue st = Inr (Continue st')"
  shows "maxIndex st' - minIndex st' < maxIndex st - minIndex st"
proof -
  from assms obtain g where g: "LineFit_probe ops searchValue st = Inr g"
    by (auto simp: LineFit_body_def Let_def split: sum.splits)
  note c = LineFit_probe_cases [OF g]
  from assms g c show ?thesis
    by (auto simp: LineFit_body_def fit_line_def narrow_def Let_def split: sum.splits if_splits)
qed

function LineFit_loop ::
    "'f float_ops \<Rightarrow> nat list \<Rightarrow> nat \<Rightarrow> 'f linefit \<Rightarrow> error + TestResults" where
  "LineFit_loop ops values searchValue st =
     (case LineFit_body ops values searchValue st of
        Inl e \<Rightarrow> Inl e
      | Inr (Done r) \<Rightarrow> Inr r
      | Inr (Continue st') \<Rightarrow> LineFit_loop ops values searchValue st')"
  by pat_completeness auto
termination
  by (relation "measure (\<lambda>(ops, values, searchValue, st). maxIndex st - minIndex st)")
     (auto dest: LineFit_body_decreases)

declare LineFit_loop.simps [simp del]

text \<open>The state in which \<open>TestList_LineFit\<close> enters its loop.\<close>

definition LineFit_init :: "'f float_ops \<Rightarrow> nat \<Rightarrow> nat \<Rightarrow> nat \<Rightarrow> 'f linefit" where
  "LineFit_init ops mxI mn mx =
     (let m = slope ops mx mn mxI 0;
          b = intercept ops mn m 0
      in \<lparr>minIndex = 0, maxIndex = mxI,
          ret = \<lparr>found = True, index = None, guesses = 0\<rparr>,
          minV = mn, maxV = mx, fm = m, fb = b\<rparr>)"

definition TestList_LineFit :: "'f float_ops \<Rightarrow> nat list \<Rightarrow> nat \<Rightarrow> error + TestResults" where
  "TestList_LineFit ops values searchValue =
     (case dec (length values) of
        Inl e \<Rightarrow> Inl e
      | Inr mxI \<Rightarrow>
          (case vec_at values 0 of
             Inl e \<Rightarrow> Inl e
           | Inr mn \<Rightarrow>
               (case vec_at values mxI of
                  Inl e \<Rightarrow> Inl e
                | Inr mx \<Rightarrow>
                    let r = \<lparr>found = True, index = None, guesses = 0\<rparr> in
                    if searchValue < mn \<or> searchValue > mx then Inr (r\<lparr>found := False\<rparr>)
                    else if searchValue = mn then Inr (r\<lparr>index := Some 0\<rparr>)
                    else if searchValue = mx then Inr (r\<lparr>index := Some mxI\<rparr>)
                    else LineFit_loop ops values searchValue (LineFit_init ops mxI mn mx))))"

section \<open>Line fit blind\<close>

definition TestList_LineFitBlind :: "'f float_ops \<Rightarrow> nat list \<Rightarrow> nat \<Rightarrow> error + TestResults" where
  "TestList_LineFitBlind ops values searchValue =
     (case TestList_LineFit ops values searchValue of
        Inl e \<Rightarrow> Inl e
      | Inr r \<Rightarrow> Inr (r\<lparr>guesses := guesses r + 2\<rparr>))"

section \<open>Hybrid search\<close>

record 'f hybrid = "'f linefit" +
  doBinaryStep :: bool

definition Hybrid_probe :: "'f float_ops \<Rightarrow> nat \<Rightarrow> 'f hybrid \<Rightarrow> error + nat" where
  "Hybrid_probe ops searchValue st =
     (let guessIndex = (if doBinaryStep st then (minIndex st + maxIndex st) div 2
                        else estimate ops searchValue (fb st) (fm st)) in
      case dec (maxIndex st) of
        Inl e \<Rightarrow> Inl e
      | Inr hi \<Rightarrow> Inr (Clamp (minIndex st + 1) hi guessIndex))"

definition Hybrid_body ::
    "'f float_ops \<Rightarrow> nat list \<Rightarrow> nat \<Rightarrow> 'f hybrid \<Rightarrow> error + ('f hybrid, TestResults) step" where
  "Hybrid_body ops values searchValue st =
     (let r = (ret st)\<lparr>guesses := guesses (ret st) + 1\<rparr> in
      case Hybrid_probe ops searchValue st of
        Inl e \<Rightarrow> Inl e
      | Inr guessIndex \<Rightarrow>
          (case vec_at values guessIndex of
             Inl e \<Rightarrow> Inl e
           | Inr guess \<Rightarrow>
               if guess = searchValue then Inr (Done (r\<lparr>index := Some guessIndex\<rparr>))
               else
                 let st1 = narrow searchValue guessIndex guess st
                 in if minIndex st1 + 1 \<ge> maxIndex st1 then Inr (Done (r\<lparr>found := False\<rparr>))
                    else Inr (Continue ((fit_line ops (st1\<lparr>ret := r\<rparr>))
                                          \<lparr>doBinaryStep := \<not> doBinaryStep st\<rparr>))))"

lemma Hybrid_probe_cases:
  assumes "Hybrid_probe ops searchValue st = Inr g"
  shows "0 < maxIndex st \<and>
         (g = minIndex st + 1 \<or> g = maxIndex st - 1 \<or> (minIndex st + 1 \<le> g \<and> g \<le> maxIndex st - 1))"
  using assms
    Clamp_nat_cases [of "minIndex st + 1" "maxIndex st - 1" "(minIndex st + maxIndex st) div 2"]
    Clamp_nat_cases [of "minIndex st + 1" "maxIndex st - 1" "estimate ops searchValue (fb st) (fm st)"]
  by (auto simp: Hybrid_probe_def dec_def Let_def split: if_splits)

lemma Hybrid_body_decreases:
  assumes "Hybrid_body ops values searchValue st = Inr (Continue st')"
  shows "maxIndex st' - minIndex st' < maxIndex st - minIndex st"
proof -
  from assms obtain g where g: "Hybrid_probe ops searchValue st = Inr g"
    by (auto simp: Hybrid_body_def Let_def split: sum.splits)
  note c = Hybrid_probe_cases [OF g]
  from assms g c show ?thesis
    by (auto simp: Hybrid_body_def fit_line_def narrow_def Let_def split: sum.splits if_splits)
qed

function Hybrid_loop ::
    "'f float_ops \<Rightarrow> nat list \<Rightarrow> nat \<Rightarrow> 'f hybrid \<Rightarrow> error + TestResults" where
  "Hybrid_loop ops values searchValue st =
     (case Hybrid_body ops values searchValue st of
        Inl e \<Rightarrow> Inl e
      | Inr (Done r) \<Rightarrow> Inr r
      | Inr (Continue st') \<Rightarrow> Hybrid_loop ops values searchValue st')"
  by pat_completeness auto
termination
  by (relation "measure (\<lambda>(ops, values, searchValue, st). maxIndex st - minIndex st)")
     (auto dest: Hybrid_body_decreases)

declare Hybrid_loop.simps [simp del]

text \<open>The state in which \<open>TestList_HybridSearch\<close> enters its loop.\<close>

definition Hybrid_init :: "'f float_ops \<Rightarrow> nat \<Rightarrow> nat \<Rightarrow> nat \<Rightarrow> 'f hybrid" where
  "Hybrid_init ops mxI mn mx =
     (let m = slope ops mx mn mxI 0;
          b = intercept ops mn m 0
      in \<lparr>minIndex = 0, maxIndex = mxI,
          ret = \<lparr>found = True, index = None, guesses = 0\<rparr>,
          minV = mn, maxV = mx, fm = m, fb = b, doBinaryStep = False\<rparr>)"

definition TestList_HybridSearch :: "'f float_ops \<Rightarrow> nat list \<Rightarrow> nat \<Rightarrow> error + TestResults" where
  "TestList_HybridSearch ops values searchValue =
     (case dec (length values) of
        Inl e \<Rightarrow> Inl e
      | Inr mxI \<Rightarrow>
          (case vec_at values 0 of
             Inl e \<Rightarrow> Inl e
           | Inr mn \<Rightarrow>
               (case vec_at values mxI of
                  Inl e \<Rightarrow> Inl e
                | Inr mx \<Rightarrow>
                    let r = \<lparr>found = True, index = None, guesses = 0\<rparr> in
                    if searchValue < mn \<or> searchValue > mx then Inr (r\<lparr>found := False\<rparr>)
                    else if searchValue = mn then Inr (r\<lparr>index := Some 0\<rparr>)
                    else if searchValue = mx then Inr (r\<lparr>index := Some mxI\<rparr>)
                    else Hybrid_loop ops values searchValue (Hybrid_init ops mxI mn mx))))"

text \<open>The state at the head of the \<open>k\<close>-th pass through the loop, counted from 0.\<close>

fun Hybrid_state ::
    "'f float_ops \<Rightarrow> nat list \<Rightarrow> nat \<Rightarrow> 'f hybrid \<Rightarrow> nat \<Rightarrow> 'f hybrid option" where
  "Hybrid_state ops values searchValue st 0 = Some st"
| "Hybrid_state ops values searchValue st (Suc k) =
     (case Hybrid_state ops values searchValue st k of
        None \<Rightarrow> None
      | Some st' \<Rightarrow>
          (case Hybrid_body ops values searchValue st' of
             Inr (Continue st'') \<Rightarrow> Some st''
           | _ \<Rightarrow> None))"

text \<open>
  The state in which \<open>TestList_HybridSearch\<close> enters its loop on \<open>values\<close>, when it does
  (the sequence is not empty and the target lies strictly between its two ends).
\<close>

definition Hybrid_entry :: "'f float_ops \<Rightarrow> nat list \<Rightarrow> 'f hybrid" where
  "Hybrid_entry ops values =
     Hybrid_init ops (length values - 1) (values ! 0) (values ! (length values - 1))"

section \<open>Verifier\<close>

text \<open>
  \<open>VerifyResults\<close> prints one of two messages or nothing; the result says which. The two
  names it prints with the message play no part.
\<close>

datatype verdict = Pass | FoundFailure | IndexFailure

text \<open>Reading \<open>result.index\<close>.\<close>

definition read_index :: "TestResults \<Rightarrow> error + nat" where
  "read_index r = (case index r of None \<Rightarrow> Inl Uninitialised | Some i \<Rightarrow> Inr i)"

definition VerifyResults :: "nat list \<Rightarrow> nat \<Rightarrow> TestResults \<Rightarrow> error + verdict" where
  "VerifyResults values searchValue result =
     (case TestList_LinearSearch values searchValue of
        Inl e \<Rightarrow> Inl e
      | Inr actualResult \<Rightarrow>
          if found result \<noteq> found actualResult then Inr FoundFailure
          else if found result = True then
            (case read_index result of
               Inl e \<Rightarrow> Inl e
             | Inr i \<Rightarrow>
                 (case read_index actualResult of
                    Inl e \<Rightarrow> Inl e
                  | Inr j \<Rightarrow>
                      if i \<noteq> j then
                        (case vec_at values i of
                           Inl e \<Rightarrow> Inl e
                         | Inr vi \<Rightarrow>
                             (case vec_at values j of
                                Inl e \<Rightarrow> Inl e
                              | Inr vj \<Rightarrow> if vi \<noteq> vj then Inr IndexFailure else Inr Pass))
                      else Inr Pass))
          else Inr Pass)"

section \<open>Generators\<close>

text \<open>
  The generators compute in \<open>float\<close>; here the arithmetic is exact, on the reals. A
  division by zero gives an infinity or a NaN, whose conversion to \<open>size_t\<close> is undefined:
  it is the outcome \<open>DivideByZero\<close>. \<open>size_t(y)\<close> drops the fraction of a float that is
  not negative. Exact and binary32 arithmetic can differ by one in the stored value where
  the exact value lies next to an integer, so the generators are only evaluated at the
  counts 1 and 2, where they agree.
\<close>

definition c_maxValue :: nat where
  "c_maxValue = 2000"

definition fdiv :: "real \<Rightarrow> real \<Rightarrow> error + real" where
  "fdiv x y = (if y = 0 then Inl DivideByZero else Inr (x / y))"

definition to_size_t :: "real \<Rightarrow> nat" where
  "to_size_t y = nat \<lfloor>y\<rfloor>"

text \<open>The \<open>for\<close> loop that stores a value at every index, stopping at the first failure.\<close>

fun fill :: "(nat \<Rightarrow> error + nat) \<Rightarrow> nat list \<Rightarrow> error + nat list" where
  "fill f [] = Inr []"
| "fill f (i # is) =
     (case f i of
        Inl e \<Rightarrow> Inl e
      | Inr v \<Rightarrow> (case fill f is of Inl e \<Rightarrow> Inl e | Inr vs \<Rightarrow> Inr (v # vs)))"

text \<open>The value \<open>MakeList_Linear\<close> stores at index \<open>i\<close>.\<close>

definition Linear_value :: "nat \<Rightarrow> nat \<Rightarrow> error + nat" where
  "Linear_value count i =
     (case fdiv (real i) (real (count - 1)) of
        Inl e \<Rightarrow> Inl e
      | Inr x \<Rightarrow> let y = x; y = y * real c_maxValue in Inr (to_size_t y))"

definition MakeList_Linear :: "nat \<Rightarrow> error + nat list" where
  "MakeList_Linear count =
     (case fill (Linear_value count) [0..<count] of
        Inl e \<Rightarrow> Inl e
      | Inr vs \<Rightarrow> Inr (sort vs))"

text \<open>\<open>float maxValue = log(float(count));\<close>\<close>

definition Log_maxValue :: "nat \<Rightarrow> real" where
  "Log_maxValue count = ln (real count)"

text \<open>The value \<open>MakeList_Log\<close> stores at index \<open>i\<close>.\<close>

definition Log_value :: "nat \<Rightarrow> nat \<Rightarrow> error + nat" where
  "Log_value count i =
     (let x = real (i + 1) in
      case fdiv (ln (x + 1)) (Log_maxValue count) of
        Inl e \<Rightarrow> Inl e
      | Inr y \<Rightarrow> let y = y * real c_maxValue in Inr (to_size_t y))"

definition MakeList_Log :: "nat \<Rightarrow> error + nat list" where
  "MakeList_Log count =
     (case fill (Log_value count) [0..<count] of
        Inl e \<Rightarrow> Inl e
      | Inr vs \<Rightarrow> Inr (sort vs))"

section \<open>Predicates of the properties\<close>

text \<open>A result that reports the target found, at an index that holds it.\<close>

definition hit :: "nat list \<Rightarrow> nat \<Rightarrow> error + TestResults \<Rightarrow> bool" where
  "hit values searchValue res =
     (case res of
        Inl e \<Rightarrow> False
      | Inr r \<Rightarrow>
          found r \<and>
          (case index r of None \<Rightarrow> False | Some i \<Rightarrow> i < length values \<and> values ! i = searchValue))"

text \<open>A bracket that lies in the vector and has two distinct ends.\<close>

definition bracket_ok :: "nat list \<Rightarrow> 'z bracket_scheme \<Rightarrow> bool" where
  "bracket_ok values st \<longleftrightarrow> minIndex st < maxIndex st \<and> maxIndex st < length values"

text \<open>
  A candidate result whose index \<open>VerifyResults\<close> can read: when it reports the target
  found, its index has been assigned and lies in the sequence.
\<close>

definition readable :: "nat list \<Rightarrow> TestResults \<Rightarrow> bool" where
  "readable values r \<longleftrightarrow>
     \<not> found r \<or> (case index r of None \<Rightarrow> False | Some i \<Rightarrow> i < length values)"

section \<open>Lemmas\<close>

lemma hit_iff:
  "hit values searchValue res \<longleftrightarrow>
     (\<exists>r i. res = Inr r \<and> found r \<and> index r = Some i \<and> i < length values \<and> values ! i = searchValue)"
  by (auto simp: hit_def split: sum.splits option.splits)

subsection \<open>Linear search\<close>

lemma LinearSearch_loop_hit:
  assumes "sorted values" "index res = Some i" "\<forall>j<i. values ! j < searchValue"
    "k < length values" "values ! k = searchValue"
  shows "hit values searchValue (LinearSearch_loop values searchValue res)"
  using assms
proof (induction "values" searchValue res arbitrary: i rule: LinearSearch_loop.induct)
  case (1 vs searchValue res)
  have ik: "i \<le> k"
  proof (rule ccontr)
    assume "\<not> i \<le> k"
    then have "k < i" by simp
    with "1.prems"(3,5) show False by auto
  qed
  with "1.prems"(4) have il: "i < length vs" by simp
  show ?case
  proof (cases "vs ! i = searchValue")
    case True
    with il "1.prems"(2) show ?thesis
      by (subst LinearSearch_loop.simps) (simp add: hit_iff vec_at_def Let_def)
  next
    case False
    have le: "vs ! i \<le> searchValue"
      using sorted_nth_mono [OF "1.prems"(1) ik "1.prems"(4)] "1.prems"(5) by simp
    with False have lt: "vs ! i < searchValue" by simp
    have all: "\<forall>j<i + 1. vs ! j < searchValue"
      using "1.prems"(3) lt by (auto simp: less_Suc_eq)
    have rd: "vec_at vs i = Inr (vs ! i)" using il by (simp add: vec_at_def)
    have ng: "\<not> searchValue < vs ! i" using lt by simp
    have nl: "\<not> length vs \<le> i" using il by simp
    have "hit vs searchValue
            (LinearSearch_loop vs searchValue ((res\<lparr>guesses := guesses res + 1\<rparr>)\<lparr>index := Some (i + 1)\<rparr>))"
      by (rule "1.IH" [OF "1.prems"(2) nl refl rd False ng "1.prems"(1) _ all "1.prems"(4,5)]) simp
    with il lt False "1.prems"(2) show ?thesis
      by (subst LinearSearch_loop.simps) (simp add: vec_at_def Let_def)
  qed
qed

lemma LinearSearch_hit:
  assumes "sorted values" "searchValue \<in> set values"
  shows "hit values searchValue (TestList_LinearSearch values searchValue)"
proof -
  from assms(2) obtain k where "k < length values" "values ! k = searchValue"
    by (auto simp: in_set_conv_nth)
  then show ?thesis
    unfolding TestList_LinearSearch_def
    by (intro LinearSearch_loop_hit [OF assms(1), where i = 0 and k = k]) simp_all
qed

lemma LinearSearch_loop_returns:
  assumes "index res = Some i"
  shows "\<exists>r. LinearSearch_loop values searchValue res = Inr r"
  using assms
proof (induction "values" searchValue res arbitrary: i rule: LinearSearch_loop.induct)
  case (1 vs searchValue res)
  show ?case
  proof (cases "i < length vs \<and> vs ! i < searchValue")
    case True
    have rd: "vec_at vs i = Inr (vs ! i)" using True by (simp add: vec_at_def)
    have ne: "vs ! i \<noteq> searchValue" and ng: "\<not> searchValue < vs ! i" using True by simp_all
    have nl: "\<not> length vs \<le> i" using True by simp
    have "\<exists>r. LinearSearch_loop vs searchValue ((res\<lparr>guesses := guesses res + 1\<rparr>)\<lparr>index := Some (i + 1)\<rparr>) = Inr r"
      by (rule "1.IH" [OF "1.prems" nl refl rd ne ng, where i = "i + 1"]) simp
    with True "1.prems" show ?thesis
      by (subst LinearSearch_loop.simps) (simp add: vec_at_def Let_def)
  next
    case False
    with "1.prems" show ?thesis
      by (subst LinearSearch_loop.simps) (auto simp: vec_at_def Let_def)
  qed
qed

lemma LinearSearch_returns: "\<exists>r. TestList_LinearSearch values searchValue = Inr r"
  unfolding TestList_LinearSearch_def by (rule LinearSearch_loop_returns [where i = 0]) simp

subsection \<open>Binary search\<close>

lemma BinarySearch_body_safe:
  assumes "minIndex st \<le> maxIndex st" "maxIndex st < length values"
  shows "(\<exists>r. BinarySearch_body values searchValue st = Inr (Done r)) \<or>
         (\<exists>st'. BinarySearch_body values searchValue st = Inr (Continue st') \<and>
                minIndex st' \<le> maxIndex st' \<and> maxIndex st' < length values)"
  using assms
  by (auto simp: BinarySearch_body_def BinarySearch_check_def Let_def dec_def vec_at_def)

lemma BinarySearch_loop_returns:
  assumes "minIndex st \<le> maxIndex st" "maxIndex st < length values"
  shows "\<exists>r. BinarySearch_loop values searchValue st = Inr r"
  using assms
proof (induction "values" searchValue st rule: BinarySearch_loop.induct)
  case (1 vs searchValue st)
  from BinarySearch_body_safe [OF "1.prems", of searchValue]
  show ?case
  proof (elim disjE exE conjE)
    fix r assume "BinarySearch_body vs searchValue st = Inr (Done r)"
    then show ?thesis by (subst BinarySearch_loop.simps) simp
  next
    fix st' assume b: "BinarySearch_body vs searchValue st = Inr (Continue st')"
      and i: "minIndex st' \<le> maxIndex st'" "maxIndex st' < length vs"
    from "1.IH" [OF b refl i] b show ?thesis by (subst BinarySearch_loop.simps) simp
  qed
qed

lemma BinarySearch_returns:
  assumes "values \<noteq> []"
  shows "\<exists>r. TestList_BinarySearch values searchValue = Inr r"
  using assms BinarySearch_loop_returns [of "\<lparr>minIndex = 0, maxIndex = length values - 1, ret = \<lparr>found = False, index = None, guesses = 0\<rparr>\<rparr>" "values" searchValue]
  by (simp add: TestList_BinarySearch_def dec_def)

lemma BinarySearch_body_sorted:
  assumes "sorted values" "minIndex st \<le> k" "k \<le> maxIndex st" "maxIndex st < length values"
    "values ! k = searchValue"
  shows "(\<exists>r. BinarySearch_body values searchValue st = Inr (Done r) \<and> hit values searchValue (Inr r)) \<or>
         (\<exists>st'. BinarySearch_body values searchValue st = Inr (Continue st') \<and>
                minIndex st' \<le> k \<and> k \<le> maxIndex st' \<and> maxIndex st' < length values)"
proof -
  let ?g = "(minIndex st + maxIndex st) div 2"
  from assms have gl: "?g < length values" by simp
  have lo: "?g < k" if "values ! ?g < searchValue"
  proof (rule ccontr)
    assume "\<not> ?g < k"
    then have "k \<le> ?g" by simp
    from sorted_nth_mono [OF assms(1) this gl] assms(5) that show False by simp
  qed
  have hi: "k < ?g" if "searchValue < values ! ?g"
  proof (rule ccontr)
    assume "\<not> k < ?g"
    then have "?g \<le> k" by simp
    moreover from assms have "k < length values" by simp
    ultimately show False
      using sorted_nth_mono [OF assms(1), of ?g k] assms(5) that by simp
  qed
  show ?thesis
    using gl lo hi assms(2,3,4)
    by (auto simp: BinarySearch_body_def BinarySearch_check_def Let_def dec_def vec_at_def hit_iff)
qed

lemma BinarySearch_loop_hit:
  assumes "sorted values" "minIndex st \<le> k" "k \<le> maxIndex st" "maxIndex st < length values"
    "values ! k = searchValue"
  shows "hit values searchValue (BinarySearch_loop values searchValue st)"
  using assms
proof (induction "values" searchValue st rule: BinarySearch_loop.induct)
  case (1 vs searchValue st)
  from BinarySearch_body_sorted [OF "1.prems"]
  show ?case
  proof (elim disjE exE conjE)
    fix r assume "BinarySearch_body vs searchValue st = Inr (Done r)" "hit vs searchValue (Inr r)"
    then show ?thesis by (subst BinarySearch_loop.simps) simp
  next
    fix st' assume b: "BinarySearch_body vs searchValue st = Inr (Continue st')"
      and i: "minIndex st' \<le> k" "k \<le> maxIndex st'" "maxIndex st' < length vs"
    from "1.IH" [OF b refl "1.prems"(1) i "1.prems"(5)] b show ?thesis
      by (subst BinarySearch_loop.simps) simp
  qed
qed

lemma BinarySearch_hit:
  assumes "sorted values" "searchValue \<in> set values"
  shows "hit values searchValue (TestList_BinarySearch values searchValue)"
proof -
  from assms(2) obtain k where k: "k < length values" "values ! k = searchValue"
    by (auto simp: in_set_conv_nth)
  then have ne: "values \<noteq> []" by auto
  have "hit values searchValue (BinarySearch_loop values searchValue
          \<lparr>minIndex = 0, maxIndex = length values - 1, ret = \<lparr>found = False, index = None, guesses = 0\<rparr>\<rparr>)"
    using k by (intro BinarySearch_loop_hit [OF assms(1), where k = k]) simp_all
  with ne show ?thesis by (simp add: TestList_BinarySearch_def dec_def)
qed

subsection \<open>Line fit\<close>

lemma fit_line_fields [simp]:
  "minIndex (fit_line ops st) = minIndex st"
  "maxIndex (fit_line ops st) = maxIndex st"
  "ret (fit_line ops st) = ret st"
  "minV (fit_line ops st) = minV st"
  "maxV (fit_line ops st) = maxV st"
  by (simp_all add: fit_line_def Let_def)

lemma fit_line_doBinaryStep [simp]: "doBinaryStep (fit_line ops st) = doBinaryStep st"
  by (simp add: fit_line_def Let_def)

lemma LineFit_probe_inv:
  assumes "minIndex st < maxIndex st"
  shows "\<exists>g. LineFit_probe ops searchValue st = Inr g \<and> minIndex st \<le> g \<and> g \<le> maxIndex st \<and>
             (minIndex st + 1 < maxIndex st \<longrightarrow> minIndex st + 1 \<le> g \<and> g \<le> maxIndex st - 1)"
  using assms by (auto simp: LineFit_probe_def dec_def Clamp_def Let_def)

lemma LineFit_body_unfold:
  assumes "LineFit_probe ops searchValue st = Inr g" "g < length values"
  shows "LineFit_body ops values searchValue st =
     (let r = (ret st)\<lparr>guesses := guesses (ret st) + 1\<rparr> in
      if values ! g = searchValue then Inr (Done (r\<lparr>index := Some g\<rparr>))
      else if values ! g < searchValue then
        (if g + 1 \<ge> maxIndex st then Inr (Done (r\<lparr>found := False\<rparr>))
         else Inr (Continue (fit_line ops (st\<lparr>minIndex := g, minV := values ! g, ret := r\<rparr>))))
      else
        (if minIndex st + 1 \<ge> g then Inr (Done (r\<lparr>found := False\<rparr>))
         else Inr (Continue (fit_line ops (st\<lparr>maxIndex := g, maxV := values ! g, ret := r\<rparr>)))))"
  using assms by (simp add: LineFit_body_def vec_at_def narrow_def Let_def)

lemma LineFit_body_step:
  assumes "bracket_ok values st"
  shows "(\<exists>r. LineFit_body ops values searchValue st = Inr (Done r) \<and>
              guesses r = guesses (ret st) + 1) \<or>
         (\<exists>st'. LineFit_body ops values searchValue st = Inr (Continue st') \<and>
                bracket_ok values st' \<and>
                maxIndex st' - minIndex st' < maxIndex st - minIndex st \<and>
                guesses (ret st') = guesses (ret st) + 1)"
proof -
  from assms have lt: "minIndex st < maxIndex st" and len: "maxIndex st < length values"
    by (simp_all add: bracket_ok_def)
  from LineFit_probe_inv [OF lt, of ops searchValue] obtain g where
    g: "LineFit_probe ops searchValue st = Inr g" "minIndex st \<le> g" "g \<le> maxIndex st"
       "minIndex st + 1 < maxIndex st \<longrightarrow> minIndex st + 1 \<le> g \<and> g \<le> maxIndex st - 1"
    by blast
  with len have gl: "g < length values" by simp
  show ?thesis
    using g(2,3,4) len lt
    by (auto simp: LineFit_body_unfold [OF g(1) gl] Let_def bracket_ok_def)
qed

lemma LineFit_loop_returns:
  assumes "bracket_ok values st"
  shows "\<exists>r. LineFit_loop ops values searchValue st = Inr r \<and>
             guesses r \<le> guesses (ret st) + (maxIndex st - minIndex st)"
  using assms
proof (induction ops "values" searchValue st rule: LineFit_loop.induct)
  case (1 ops vs searchValue st)
  from LineFit_body_step [OF "1.prems", of ops searchValue]
  show ?case
  proof (elim disjE exE conjE)
    fix r assume "LineFit_body ops vs searchValue st = Inr (Done r)"
      "guesses r = guesses (ret st) + 1"
    with "1.prems" show ?thesis
      by (subst LineFit_loop.simps) (auto simp: bracket_ok_def)
  next
    fix st' assume b: "LineFit_body ops vs searchValue st = Inr (Continue st')"
      and i: "bracket_ok vs st'"
      and d: "maxIndex st' - minIndex st' < maxIndex st - minIndex st"
      and c: "guesses (ret st') = guesses (ret st) + 1"
    from "1.IH" [OF b refl i] obtain r where
      "LineFit_loop ops vs searchValue st' = Inr r"
      "guesses r \<le> guesses (ret st') + (maxIndex st' - minIndex st')" by blast
    with b d c show ?thesis by (subst LineFit_loop.simps) simp
  qed
qed

text \<open>The loop is entered with a bracket of at least two positions.\<close>

lemma entry_bracket:
  fixes "values" :: "nat list"
  assumes "values ! 0 < searchValue" "searchValue < values ! (length values - 1)"
  shows "0 < length values - 1"
proof (rule ccontr)
  assume "\<not> 0 < length values - 1"
  then have "length values - 1 = 0" by simp
  moreover from assms have "values ! 0 < values ! (length values - 1)" by (rule less_trans)
  ultimately show False by simp
qed

lemma LineFit_init_fields [simp]:
  "minIndex (LineFit_init ops mxI mn mx) = 0"
  "maxIndex (LineFit_init ops mxI mn mx) = mxI"
  "ret (LineFit_init ops mxI mn mx) = \<lparr>found = True, index = None, guesses = 0\<rparr>"
  by (simp_all add: LineFit_init_def Let_def)

lemma LineFit_returns:
  assumes "values \<noteq> []"
  shows "\<exists>r. TestList_LineFit ops values searchValue = Inr r \<and> guesses r < length values"
proof -
  let ?mxI = "length values - 1"
  let ?st = "LineFit_init ops ?mxI (values ! 0) (values ! ?mxI)"
  show ?thesis
  proof (cases "values ! 0 < searchValue \<and> searchValue < values ! ?mxI")
    case True
    with entry_bracket [of "values" searchValue] assms have "bracket_ok values ?st"
      by (simp add: bracket_ok_def)
    from LineFit_loop_returns [OF this, of ops searchValue] assms True show ?thesis
      by (auto simp: TestList_LineFit_def dec_def vec_at_def Let_def)
  next
    case False
    with assms show ?thesis
      by (auto simp: TestList_LineFit_def dec_def vec_at_def Let_def)
  qed
qed

lemma sorted_between:
  fixes "values" :: "nat list"
  assumes "sorted values" "values ! a < searchValue" "searchValue < values ! b"
    "a < b" "b < length values" "k < length values" "values ! k = searchValue"
  shows "a < k \<and> k < b"
proof
  show "a < k"
  proof (rule ccontr)
    assume "\<not> a < k"
    then have "k \<le> a" by simp
    moreover from assms(4,5) have "a < length values" by simp
    ultimately have "values ! k \<le> values ! a" by (rule sorted_nth_mono [OF assms(1)])
    with assms(2,7) show False by simp
  qed
  show "k < b"
  proof (rule ccontr)
    assume "\<not> k < b"
    then have "b \<le> k" by simp
    then have "values ! b \<le> values ! k" using assms(6) by (rule sorted_nth_mono [OF assms(1)])
    with assms(3,7) show False by simp
  qed
qed

lemma LineFit_body_sorted:
  assumes "sorted values" "k < length values" "values ! k = searchValue"
    "bracket_ok values st" "values ! minIndex st < searchValue" "searchValue < values ! maxIndex st"
    "found (ret st)"
  shows "(\<exists>r. LineFit_body ops values searchValue st = Inr (Done r) \<and> hit values searchValue (Inr r)) \<or>
         (\<exists>st'. LineFit_body ops values searchValue st = Inr (Continue st') \<and>
                bracket_ok values st' \<and> values ! minIndex st' < searchValue \<and>
                searchValue < values ! maxIndex st' \<and> found (ret st'))"
proof -
  from assms(4) have lt: "minIndex st < maxIndex st" and len: "maxIndex st < length values"
    by (simp_all add: bracket_ok_def)
  from sorted_between [OF assms(1,5,6) lt len assms(2,3)]
  have int: "minIndex st + 1 < maxIndex st" by simp
  from LineFit_probe_inv [OF lt, of ops searchValue] int obtain g where
    g: "LineFit_probe ops searchValue st = Inr g" "minIndex st < g" "g < maxIndex st"
    by auto
  with len have gl: "g < length values" by simp
  have lo: "g + 1 < maxIndex st" if "values ! g < searchValue"
    using sorted_between [OF assms(1) that assms(6) g(3) len assms(2,3)] by simp
  have hi: "minIndex st + 1 < g" if "searchValue < values ! g"
    using sorted_between [OF assms(1,5) that g(2) gl assms(2,3)] by simp
  consider (eq) "values ! g = searchValue" | (less) "values ! g < searchValue"
    | (greater) "searchValue < values ! g"
    by linarith
  then show ?thesis
  proof cases
    case eq
    with gl assms(7) show ?thesis
      by (simp add: LineFit_body_unfold [OF g(1) gl] Let_def hit_iff)
  next
    case less
    with lo [OF less] g(2) len assms(6,7) show ?thesis
      by (simp add: LineFit_body_unfold [OF g(1) gl] Let_def bracket_ok_def)
  next
    case greater
    with hi [OF greater] g(3) len assms(5,7) show ?thesis
      by (simp add: LineFit_body_unfold [OF g(1) gl] Let_def bracket_ok_def)
  qed
qed

lemma LineFit_loop_hit:
  assumes "sorted values" "k < length values" "values ! k = searchValue"
    "bracket_ok values st" "values ! minIndex st < searchValue" "searchValue < values ! maxIndex st"
    "found (ret st)"
  shows "hit values searchValue (LineFit_loop ops values searchValue st)"
  using assms
proof (induction ops "values" searchValue st rule: LineFit_loop.induct)
  case (1 ops vs searchValue st)
  from LineFit_body_sorted [OF "1.prems", of ops]
  show ?case
  proof (elim disjE exE conjE)
    fix r assume "LineFit_body ops vs searchValue st = Inr (Done r)" "hit vs searchValue (Inr r)"
    then show ?thesis by (subst LineFit_loop.simps) simp
  next
    fix st' assume b: "LineFit_body ops vs searchValue st = Inr (Continue st')"
      and i: "bracket_ok vs st'" "vs ! minIndex st' < searchValue"
        "searchValue < vs ! maxIndex st'" "found (ret st')"
    from "1.IH" [OF b refl "1.prems"(1,2,3) i] b show ?thesis
      by (subst LineFit_loop.simps) simp
  qed
qed

lemma sorted_ends:
  fixes "values" :: "nat list"
  assumes "sorted values" "k < length values"
  shows "values ! 0 \<le> values ! k \<and> values ! k \<le> values ! (length values - 1)"
  using assms sorted_nth_mono [of "values" 0 k] sorted_nth_mono [of "values" k "length values - 1"]
  by auto

lemma LineFit_hit:
  assumes "sorted values" "searchValue \<in> set values"
  shows "hit values searchValue (TestList_LineFit ops values searchValue)"
proof -
  from assms(2) obtain k where k: "k < length values" "values ! k = searchValue"
    by (auto simp: in_set_conv_nth)
  then have ne: "values \<noteq> []" by auto
  let ?mxI = "length values - 1"
  let ?st = "LineFit_init ops ?mxI (values ! 0) (values ! ?mxI)"
  from sorted_ends [OF assms(1) k(1)] k(2)
  have ends: "values ! 0 \<le> searchValue" "searchValue \<le> values ! ?mxI" by simp_all
  show ?thesis
  proof (cases "values ! 0 < searchValue \<and> searchValue < values ! ?mxI")
    case True
    with entry_bracket [of "values" searchValue] ne have ok: "bracket_ok values ?st"
      by (simp add: bracket_ok_def)
    have "hit values searchValue (LineFit_loop ops values searchValue ?st)"
      using True by (intro LineFit_loop_hit [OF assms(1) k ok]) simp_all
    with ne True show ?thesis
      by (simp add: TestList_LineFit_def dec_def vec_at_def Let_def)
  next
    case False
    with ne ends show ?thesis
      by (auto simp: TestList_LineFit_def dec_def vec_at_def Let_def hit_iff)
  qed
qed

subsection \<open>Hybrid search\<close>

lemma Hybrid_probe_inv:
  assumes "minIndex st < maxIndex st"
  shows "\<exists>g. Hybrid_probe ops searchValue st = Inr g \<and> minIndex st \<le> g \<and> g \<le> maxIndex st \<and>
             (minIndex st + 1 < maxIndex st \<longrightarrow> minIndex st + 1 \<le> g \<and> g \<le> maxIndex st - 1)"
  using assms by (auto simp: Hybrid_probe_def dec_def Clamp_def Let_def)

lemma Hybrid_body_unfold:
  assumes "Hybrid_probe ops searchValue st = Inr g" "g < length values"
  shows "Hybrid_body ops values searchValue st =
     (let r = (ret st)\<lparr>guesses := guesses (ret st) + 1\<rparr> in
      if values ! g = searchValue then Inr (Done (r\<lparr>index := Some g\<rparr>))
      else if values ! g < searchValue then
        (if g + 1 \<ge> maxIndex st then Inr (Done (r\<lparr>found := False\<rparr>))
         else Inr (Continue ((fit_line ops (st\<lparr>minIndex := g, minV := values ! g, ret := r\<rparr>))
                               \<lparr>doBinaryStep := \<not> doBinaryStep st\<rparr>)))
      else
        (if minIndex st + 1 \<ge> g then Inr (Done (r\<lparr>found := False\<rparr>))
         else Inr (Continue ((fit_line ops (st\<lparr>maxIndex := g, maxV := values ! g, ret := r\<rparr>))
                               \<lparr>doBinaryStep := \<not> doBinaryStep st\<rparr>))))"
  using assms by (simp add: Hybrid_body_def vec_at_def narrow_def Let_def)

lemma Hybrid_body_step:
  assumes "bracket_ok values st"
  shows "(\<exists>r. Hybrid_body ops values searchValue st = Inr (Done r) \<and>
              guesses r = guesses (ret st) + 1) \<or>
         (\<exists>st'. Hybrid_body ops values searchValue st = Inr (Continue st') \<and>
                bracket_ok values st' \<and>
                maxIndex st' - minIndex st' < maxIndex st - minIndex st \<and>
                guesses (ret st') = guesses (ret st) + 1)"
proof -
  from assms have lt: "minIndex st < maxIndex st" and len: "maxIndex st < length values"
    by (simp_all add: bracket_ok_def)
  from Hybrid_probe_inv [OF lt, of ops searchValue] obtain g where
    g: "Hybrid_probe ops searchValue st = Inr g" "minIndex st \<le> g" "g \<le> maxIndex st"
       "minIndex st + 1 < maxIndex st \<longrightarrow> minIndex st + 1 \<le> g \<and> g \<le> maxIndex st - 1"
    by blast
  with len have gl: "g < length values" by simp
  show ?thesis
    using g(2,3,4) len lt
    by (auto simp: Hybrid_body_unfold [OF g(1) gl] Let_def bracket_ok_def)
qed

lemma Hybrid_loop_returns:
  assumes "bracket_ok values st"
  shows "\<exists>r. Hybrid_loop ops values searchValue st = Inr r \<and>
             guesses r \<le> guesses (ret st) + (maxIndex st - minIndex st)"
  using assms
proof (induction ops "values" searchValue st rule: Hybrid_loop.induct)
  case (1 ops vs searchValue st)
  from Hybrid_body_step [OF "1.prems", of ops searchValue]
  show ?case
  proof (elim disjE exE conjE)
    fix r assume "Hybrid_body ops vs searchValue st = Inr (Done r)"
      "guesses r = guesses (ret st) + 1"
    with "1.prems" show ?thesis
      by (subst Hybrid_loop.simps) (auto simp: bracket_ok_def)
  next
    fix st' assume b: "Hybrid_body ops vs searchValue st = Inr (Continue st')"
      and i: "bracket_ok vs st'"
      and d: "maxIndex st' - minIndex st' < maxIndex st - minIndex st"
      and c: "guesses (ret st') = guesses (ret st) + 1"
    from "1.IH" [OF b refl i] obtain r where
      "Hybrid_loop ops vs searchValue st' = Inr r"
      "guesses r \<le> guesses (ret st') + (maxIndex st' - minIndex st')" by blast
    with b d c show ?thesis by (subst Hybrid_loop.simps) simp
  qed
qed

lemma Hybrid_init_fields [simp]:
  "minIndex (Hybrid_init ops mxI mn mx) = 0"
  "maxIndex (Hybrid_init ops mxI mn mx) = mxI"
  "ret (Hybrid_init ops mxI mn mx) = \<lparr>found = True, index = None, guesses = 0\<rparr>"
  "doBinaryStep (Hybrid_init ops mxI mn mx) = False"
  by (simp_all add: Hybrid_init_def Let_def)

lemma Hybrid_returns:
  assumes "values \<noteq> []"
  shows "\<exists>r. TestList_HybridSearch ops values searchValue = Inr r \<and> guesses r < length values"
proof -
  let ?mxI = "length values - 1"
  let ?st = "Hybrid_init ops ?mxI (values ! 0) (values ! ?mxI)"
  show ?thesis
  proof (cases "values ! 0 < searchValue \<and> searchValue < values ! ?mxI")
    case True
    with entry_bracket [of "values" searchValue] assms have "bracket_ok values ?st"
      by (simp add: bracket_ok_def)
    from Hybrid_loop_returns [OF this, of ops searchValue] assms True show ?thesis
      by (auto simp: TestList_HybridSearch_def dec_def vec_at_def Let_def)
  next
    case False
    with assms show ?thesis
      by (auto simp: TestList_HybridSearch_def dec_def vec_at_def Let_def)
  qed
qed

lemma Hybrid_body_sorted:
  assumes "sorted values" "k < length values" "values ! k = searchValue"
    "bracket_ok values st" "values ! minIndex st < searchValue" "searchValue < values ! maxIndex st"
    "found (ret st)"
  shows "(\<exists>r. Hybrid_body ops values searchValue st = Inr (Done r) \<and> hit values searchValue (Inr r)) \<or>
         (\<exists>st'. Hybrid_body ops values searchValue st = Inr (Continue st') \<and>
                bracket_ok values st' \<and> values ! minIndex st' < searchValue \<and>
                searchValue < values ! maxIndex st' \<and> found (ret st'))"
proof -
  from assms(4) have lt: "minIndex st < maxIndex st" and len: "maxIndex st < length values"
    by (simp_all add: bracket_ok_def)
  from sorted_between [OF assms(1,5,6) lt len assms(2,3)]
  have int: "minIndex st + 1 < maxIndex st" by simp
  from Hybrid_probe_inv [OF lt, of ops searchValue] int obtain g where
    g: "Hybrid_probe ops searchValue st = Inr g" "minIndex st < g" "g < maxIndex st"
    by auto
  with len have gl: "g < length values" by simp
  have lo: "g + 1 < maxIndex st" if "values ! g < searchValue"
    using sorted_between [OF assms(1) that assms(6) g(3) len assms(2,3)] by simp
  have hi: "minIndex st + 1 < g" if "searchValue < values ! g"
    using sorted_between [OF assms(1,5) that g(2) gl assms(2,3)] by simp
  consider (eq) "values ! g = searchValue" | (less) "values ! g < searchValue"
    | (greater) "searchValue < values ! g"
    by linarith
  then show ?thesis
  proof cases
    case eq
    with gl assms(7) show ?thesis
      by (simp add: Hybrid_body_unfold [OF g(1) gl] Let_def hit_iff)
  next
    case less
    with lo [OF less] g(2) len assms(6,7) show ?thesis
      by (simp add: Hybrid_body_unfold [OF g(1) gl] Let_def bracket_ok_def)
  next
    case greater
    with hi [OF greater] g(3) len assms(5,7) show ?thesis
      by (simp add: Hybrid_body_unfold [OF g(1) gl] Let_def bracket_ok_def)
  qed
qed

lemma Hybrid_loop_hit:
  assumes "sorted values" "k < length values" "values ! k = searchValue"
    "bracket_ok values st" "values ! minIndex st < searchValue" "searchValue < values ! maxIndex st"
    "found (ret st)"
  shows "hit values searchValue (Hybrid_loop ops values searchValue st)"
  using assms
proof (induction ops "values" searchValue st rule: Hybrid_loop.induct)
  case (1 ops vs searchValue st)
  from Hybrid_body_sorted [OF "1.prems", of ops]
  show ?case
  proof (elim disjE exE conjE)
    fix r assume "Hybrid_body ops vs searchValue st = Inr (Done r)" "hit vs searchValue (Inr r)"
    then show ?thesis by (subst Hybrid_loop.simps) simp
  next
    fix st' assume b: "Hybrid_body ops vs searchValue st = Inr (Continue st')"
      and i: "bracket_ok vs st'" "vs ! minIndex st' < searchValue"
        "searchValue < vs ! maxIndex st'" "found (ret st')"
    from "1.IH" [OF b refl "1.prems"(1,2,3) i] b show ?thesis
      by (subst Hybrid_loop.simps) simp
  qed
qed

lemma Hybrid_hit:
  assumes "sorted values" "searchValue \<in> set values"
  shows "hit values searchValue (TestList_HybridSearch ops values searchValue)"
proof -
  from assms(2) obtain k where k: "k < length values" "values ! k = searchValue"
    by (auto simp: in_set_conv_nth)
  then have ne: "values \<noteq> []" by auto
  let ?mxI = "length values - 1"
  let ?st = "Hybrid_init ops ?mxI (values ! 0) (values ! ?mxI)"
  from sorted_ends [OF assms(1) k(1)] k(2)
  have ends: "values ! 0 \<le> searchValue" "searchValue \<le> values ! ?mxI" by simp_all
  show ?thesis
  proof (cases "values ! 0 < searchValue \<and> searchValue < values ! ?mxI")
    case True
    with entry_bracket [of "values" searchValue] ne have ok: "bracket_ok values ?st"
      by (simp add: bracket_ok_def)
    have "hit values searchValue (Hybrid_loop ops values searchValue ?st)"
      using True by (intro Hybrid_loop_hit [OF assms(1) k ok]) simp_all
    with ne True show ?thesis
      by (simp add: TestList_HybridSearch_def dec_def vec_at_def Let_def)
  next
    case False
    with ne ends show ?thesis
      by (auto simp: TestList_HybridSearch_def dec_def vec_at_def Let_def hit_iff)
  qed
qed

lemma LineFitBlind_hit:
  assumes "hit values searchValue (TestList_LineFit ops values searchValue)"
  shows "hit values searchValue (TestList_LineFitBlind ops values searchValue)"
  using assms by (auto simp: TestList_LineFitBlind_def hit_iff)

subsection \<open>Steps of the loops\<close>

text \<open>
  On a bracket of two adjacent positions the clamp is called with \<open>min > max\<close> and returns
  one of the two ends, whatever the estimate.
\<close>

lemma LineFit_probe_adjacent:
  assumes "maxIndex st = minIndex st + 1"
  shows "LineFit_probe ops searchValue st = Inr (minIndex st) \<or>
         LineFit_probe ops searchValue st = Inr (maxIndex st)"
  using assms by (simp add: LineFit_probe_def dec_def Clamp_def Let_def)

lemma LineFit_body_exit:
  assumes "LineFit_probe ops searchValue st = Inr g" "vec_at values g = Inr v" "v \<noteq> searchValue"
    "maxIndex (narrow searchValue g v st) \<le> minIndex (narrow searchValue g v st) + 1"
  shows "LineFit_body ops values searchValue st =
           Inr (Done ((ret st)\<lparr>guesses := guesses (ret st) + 1, found := False\<rparr>))"
  using assms by (simp add: LineFit_body_def Let_def)

lemma LineFit_body_shrinks:
  assumes "bracket_ok values st" "LineFit_body ops values searchValue st = Inr (Continue st')"
  shows "minIndex st \<le> minIndex st' \<and> maxIndex st' \<le> maxIndex st \<and>
         maxIndex st' - minIndex st' < maxIndex st - minIndex st"
proof -
  from assms(1) have lt: "minIndex st < maxIndex st" and len: "maxIndex st < length values"
    by (simp_all add: bracket_ok_def)
  from LineFit_probe_inv [OF lt, of ops searchValue] obtain g where
    g: "LineFit_probe ops searchValue st = Inr g" "minIndex st \<le> g" "g \<le> maxIndex st"
    by blast
  with len have gl: "g < length values" by simp
  from assms(2) g(2,3) LineFit_body_decreases [OF assms(2)] show ?thesis
    by (auto simp: LineFit_body_unfold [OF g(1) gl] Let_def split: if_splits)
qed

lemma BinarySearch_body_guard:
  assumes "(minIndex st + maxIndex st) div 2 = 0" "vec_at values 0 = Inr v" "searchValue < v"
  shows "BinarySearch_body values searchValue st =
           Inr (Done ((ret st)\<lparr>guesses := guesses (ret st) + 1\<rparr>))"
  using assms by (simp add: BinarySearch_body_def Let_def)

lemma BinarySearch_body_decrement:
  assumes "BinarySearch_body values searchValue st = Inr (Continue st')"
    "maxIndex st' \<noteq> maxIndex st"
  shows "0 < (minIndex st + maxIndex st) div 2 \<and>
         maxIndex st' = (minIndex st + maxIndex st) div 2 - 1"
  using assms
  by (auto simp: BinarySearch_body_def BinarySearch_check_def Let_def dec_def
           split: sum.splits if_splits)

lemma LineFitBlind_returns:
  assumes "values \<noteq> []"
  shows "\<exists>r. TestList_LineFitBlind ops values searchValue = Inr r"
  using LineFit_returns [OF assms, of ops searchValue]
  by (auto simp: TestList_LineFitBlind_def)

lemma Hybrid_body_toggles:
  assumes "Hybrid_body ops values searchValue st = Inr (Continue st')"
  shows "doBinaryStep st' = (\<not> doBinaryStep st)"
  using assms
  by (auto simp: Hybrid_body_def Let_def split: sum.splits if_splits)

lemma Hybrid_state_Suc:
  assumes "Hybrid_state ops values searchValue st0 (Suc k) = Some st'"
  shows "\<exists>st. Hybrid_state ops values searchValue st0 k = Some st \<and>
              Hybrid_body ops values searchValue st = Inr (Continue st')"
  using assms by (auto split: option.splits sum.splits step.splits)

lemma Hybrid_state_parity:
  assumes "Hybrid_state ops values searchValue st0 k = Some st"
  shows "doBinaryStep st = (doBinaryStep st0 \<noteq> odd k)"
  using assms
proof (induction k arbitrary: st)
  case 0
  then show ?case by simp
next
  case (Suc k)
  from Hybrid_state_Suc [OF Suc.prems] obtain st1 where
    s: "Hybrid_state ops values searchValue st0 k = Some st1"
    and b: "Hybrid_body ops values searchValue st1 = Inr (Continue st)" by blast
  from Suc.IH [OF s] Hybrid_body_toggles [OF b] show ?case by auto
qed

lemma Hybrid_state_loop:
  assumes "Hybrid_state ops values searchValue st0 k = Some st"
  shows "Hybrid_loop ops values searchValue st0 = Hybrid_loop ops values searchValue st"
  using assms
proof (induction k arbitrary: st)
  case 0
  then show ?case by simp
next
  case (Suc k)
  from Hybrid_state_Suc [OF Suc.prems] obtain st1 where
    s: "Hybrid_state ops values searchValue st0 k = Some st1"
    and b: "Hybrid_body ops values searchValue st1 = Inr (Continue st)" by blast
  have "Hybrid_loop ops values searchValue st1 = Hybrid_loop ops values searchValue st"
    using b by (subst Hybrid_loop.simps) simp
  with Suc.IH [OF s] show ?case by simp
qed

subsection \<open>Results that report a miss or a hit\<close>

lemma takeWhile_length_stop:
  fixes "values" :: "nat list"
  assumes "\<forall>j<i. P (values ! j)" "i \<le> length values" "i < length values \<longrightarrow> \<not> P (values ! i)"
  shows "length (takeWhile P values) = i"
proof -
  have "takeWhile P values = take i values"
    using assms by (intro takeWhile_eq_take_P_nth) auto
  with assms(2) show ?thesis by simp
qed

lemma LinearSearch_loop_miss:
  assumes "index res = Some i" "i \<le> length values" "\<forall>j<i. values ! j < searchValue"
    "guesses res = i" "\<not> found res"
    "LinearSearch_loop values searchValue res = Inr r" "\<not> found r"
  shows "index r = Some (length (takeWhile (\<lambda>v. v < searchValue) values)) \<and>
         guesses r = min (length values) (length (takeWhile (\<lambda>v. v < searchValue) values) + 1)"
  using assms
proof (induction "values" searchValue res arbitrary: i rule: LinearSearch_loop.induct)
  case (1 vs searchValue res)
  let ?n = "length (takeWhile (\<lambda>v. v < searchValue) vs)"
  show ?case
  proof (cases "i < length vs")
    case False
    with "1.prems"(2) have il: "i = length vs" by simp
    with "1.prems"(1,6) have r: "r = res"
      by (subst (asm) LinearSearch_loop.simps) simp
    from takeWhile_length_stop [OF "1.prems"(3,2)] il have "?n = i" by simp
    with r il "1.prems"(1,4) show ?thesis by simp
  next
    case True
    then have rd: "vec_at vs i = Inr (vs ! i)" by (simp add: vec_at_def)
    have nl: "\<not> length vs \<le> i" using True by simp
    show ?thesis
    proof (cases "vs ! i < searchValue")
      case less: True
      then have ne: "vs ! i \<noteq> searchValue" and ng: "\<not> searchValue < vs ! i" by simp_all
      let ?res' = "(res\<lparr>guesses := guesses res + 1\<rparr>)\<lparr>index := Some (i + 1)\<rparr>"
      have all: "\<forall>j<i + 1. vs ! j < searchValue"
        using "1.prems"(3) less by (auto simp: less_Suc_eq)
      have run: "LinearSearch_loop vs searchValue ?res' = Inr r"
        using "1.prems"(1,6) True less
        by (subst (asm) LinearSearch_loop.simps) (simp add: vec_at_def Let_def)
      show ?thesis
        using "1.prems"(4,5) True
        by (intro "1.IH" [OF "1.prems"(1) nl refl rd ne ng _ _ all _ _ run "1.prems"(7)]) simp_all
    next
      case False
      have "r = res\<lparr>guesses := guesses res + 1\<rparr> \<or> found r"
        using "1.prems"(1,6) True False
        by (subst (asm) LinearSearch_loop.simps) (auto simp: vec_at_def Let_def split: if_splits)
      with "1.prems"(7) have r: "r = res\<lparr>guesses := guesses res + 1\<rparr>" by simp
      from takeWhile_length_stop [OF "1.prems"(3,2)] False have "?n = i" by simp
      with r True "1.prems"(1,4) show ?thesis by simp
    qed
  qed
qed

lemma LinearSearch_miss:
  assumes "TestList_LinearSearch values searchValue = Inr r" "\<not> found r"
  shows "index r = Some (length (takeWhile (\<lambda>v. v < searchValue) values)) \<and>
         guesses r = min (length values) (length (takeWhile (\<lambda>v. v < searchValue) values) + 1)"
  using assms unfolding TestList_LinearSearch_def
  by (intro LinearSearch_loop_miss [where i = 0 and res = "\<lparr>found = False, index = Some 0, guesses = 0\<rparr>"]) simp_all

lemma BinarySearch_body_ret:
  assumes "BinarySearch_body values searchValue st = Inr (Continue st')"
  shows "ret st' = (ret st)\<lparr>guesses := guesses (ret st) + 1\<rparr>"
  using assms
  by (auto simp: BinarySearch_body_def BinarySearch_check_def Let_def dec_def
           split: sum.splits if_splits)

lemma BinarySearch_body_done:
  assumes "BinarySearch_body values searchValue st = Inr (Done r)" "\<not> found r"
  shows "r = (ret st)\<lparr>guesses := guesses (ret st) + 1\<rparr>"
  using assms
  by (auto simp: BinarySearch_body_def BinarySearch_check_def Let_def dec_def
           split: sum.splits if_splits)

lemma BinarySearch_loop_miss:
  assumes "BinarySearch_loop values searchValue st = Inr r" "\<not> found r" "index (ret st) = None"
  shows "index r = None"
  using assms
proof (induction "values" searchValue st rule: BinarySearch_loop.induct)
  case (1 vs searchValue st)
  from "1.prems"(1) consider
    (finish) "BinarySearch_body vs searchValue st = Inr (Done r)"
    | (again) st' where "BinarySearch_body vs searchValue st = Inr (Continue st')"
        "BinarySearch_loop vs searchValue st' = Inr r"
    by (subst (asm) BinarySearch_loop.simps) (auto split: sum.splits step.splits)
  then show ?case
  proof cases
    case finish
    from BinarySearch_body_done [OF finish "1.prems"(2)] "1.prems"(3) show ?thesis by simp
  next
    case again
    from BinarySearch_body_ret [OF again(1)] "1.prems"(3) have "index (ret st') = None" by simp
    from "1.IH" [OF again(1) refl again(2) "1.prems"(2) this] show ?thesis .
  qed
qed

lemma BinarySearch_miss:
  assumes "TestList_BinarySearch values searchValue = Inr r" "\<not> found r"
  shows "index r = None"
proof -
  from assms(1) have
    "BinarySearch_loop values searchValue
       \<lparr>minIndex = 0, maxIndex = length values - 1,
        ret = \<lparr>found = False, index = None, guesses = 0\<rparr>\<rparr> = Inr r"
    by (auto simp: TestList_BinarySearch_def dec_def split: if_splits)
  from BinarySearch_loop_miss [OF this assms(2)] show ?thesis by simp
qed

lemma LineFit_body_ret:
  assumes "LineFit_body ops values searchValue st = Inr (Continue st')"
  shows "ret st' = (ret st)\<lparr>guesses := guesses (ret st) + 1\<rparr>"
  using assms
  by (auto simp: LineFit_body_def Let_def narrow_def split: sum.splits if_splits)

lemma LineFit_body_done:
  assumes "LineFit_body ops values searchValue st = Inr (Done r)" "\<not> found r" "found (ret st)"
  shows "r = (ret st)\<lparr>guesses := guesses (ret st) + 1, found := False\<rparr>"
  using assms
  by (auto simp: LineFit_body_def Let_def split: sum.splits if_splits)

lemma LineFit_loop_miss:
  assumes "LineFit_loop ops values searchValue st = Inr r" "\<not> found r" "index (ret st) = None"
    "found (ret st)"
  shows "index r = None"
  using assms
proof (induction ops "values" searchValue st rule: LineFit_loop.induct)
  case (1 ops vs searchValue st)
  from "1.prems"(1) consider
    (finish) "LineFit_body ops vs searchValue st = Inr (Done r)"
    | (again) st' where "LineFit_body ops vs searchValue st = Inr (Continue st')"
        "LineFit_loop ops vs searchValue st' = Inr r"
    by (subst (asm) LineFit_loop.simps) (auto split: sum.splits step.splits)
  then show ?case
  proof cases
    case finish
    from LineFit_body_done [OF finish "1.prems"(2,4)] "1.prems"(3) show ?thesis by simp
  next
    case again
    from LineFit_body_ret [OF again(1)] "1.prems"(3,4)
    have "index (ret st') = None" "found (ret st')" by simp_all
    from "1.IH" [OF again(1) refl again(2) "1.prems"(2) this] show ?thesis .
  qed
qed

lemma LineFit_miss:
  assumes "TestList_LineFit ops values searchValue = Inr r" "\<not> found r"
  shows "index r = None"
proof -
  let ?mxI = "length values - 1"
  from assms consider
    (ends) "r = \<lparr>found = False, index = None, guesses = 0\<rparr>"
    | (loop) "LineFit_loop ops values searchValue
                (LineFit_init ops ?mxI (values ! 0) (values ! ?mxI)) = Inr r"
    by (auto simp: TestList_LineFit_def dec_def vec_at_def Let_def split: if_splits)
  then show ?thesis
  proof cases
    case ends
    then show ?thesis by simp
  next
    case loop
    from LineFit_loop_miss [OF loop assms(2)] show ?thesis by simp
  qed
qed

lemma LineFitBlind_miss:
  assumes "TestList_LineFitBlind ops values searchValue = Inr r" "\<not> found r"
  shows "index r = None"
proof -
  from assms(1) obtain r0 where r0: "TestList_LineFit ops values searchValue = Inr r0"
    and r: "r = r0\<lparr>guesses := guesses r0 + 2\<rparr>"
    by (auto simp: TestList_LineFitBlind_def split: sum.splits)
  with assms(2) have "\<not> found r0" by simp
  from LineFit_miss [OF r0 this] r show ?thesis by simp
qed

lemma Hybrid_body_ret:
  assumes "Hybrid_body ops values searchValue st = Inr (Continue st')"
  shows "ret st' = (ret st)\<lparr>guesses := guesses (ret st) + 1\<rparr>"
  using assms
  by (auto simp: Hybrid_body_def Let_def narrow_def split: sum.splits if_splits)

lemma Hybrid_body_done:
  assumes "Hybrid_body ops values searchValue st = Inr (Done r)" "\<not> found r" "found (ret st)"
  shows "r = (ret st)\<lparr>guesses := guesses (ret st) + 1, found := False\<rparr>"
  using assms
  by (auto simp: Hybrid_body_def Let_def split: sum.splits if_splits)

lemma Hybrid_loop_miss:
  assumes "Hybrid_loop ops values searchValue st = Inr r" "\<not> found r" "index (ret st) = None"
    "found (ret st)"
  shows "index r = None"
  using assms
proof (induction ops "values" searchValue st rule: Hybrid_loop.induct)
  case (1 ops vs searchValue st)
  from "1.prems"(1) consider
    (finish) "Hybrid_body ops vs searchValue st = Inr (Done r)"
    | (again) st' where "Hybrid_body ops vs searchValue st = Inr (Continue st')"
        "Hybrid_loop ops vs searchValue st' = Inr r"
    by (subst (asm) Hybrid_loop.simps) (auto split: sum.splits step.splits)
  then show ?case
  proof cases
    case finish
    from Hybrid_body_done [OF finish "1.prems"(2,4)] "1.prems"(3) show ?thesis by simp
  next
    case again
    from Hybrid_body_ret [OF again(1)] "1.prems"(3,4)
    have "index (ret st') = None" "found (ret st')" by simp_all
    from "1.IH" [OF again(1) refl again(2) "1.prems"(2) this] show ?thesis .
  qed
qed

lemma Hybrid_miss:
  assumes "TestList_HybridSearch ops values searchValue = Inr r" "\<not> found r"
  shows "index r = None"
proof -
  let ?mxI = "length values - 1"
  from assms consider
    (ends) "r = \<lparr>found = False, index = None, guesses = 0\<rparr>"
    | (loop) "Hybrid_loop ops values searchValue
                (Hybrid_init ops ?mxI (values ! 0) (values ! ?mxI)) = Inr r"
    by (auto simp: TestList_HybridSearch_def dec_def vec_at_def Let_def split: if_splits)
  then show ?thesis
  proof cases
    case ends
    then show ?thesis by simp
  next
    case loop
    from Hybrid_loop_miss [OF loop assms(2)] show ?thesis by simp
  qed
qed

lemma LinearSearch_loop_found:
  assumes "LinearSearch_loop values searchValue res = Inr r" "found r" "\<not> found res"
  shows "\<exists>k. index r = Some k \<and> k < length values \<and> values ! k = searchValue"
  using assms
proof (induction "values" searchValue res rule: LinearSearch_loop.induct)
  case (1 vs searchValue res)
  from "1.prems"(1) obtain i where i: "index res = Some i"
    by (subst (asm) LinearSearch_loop.simps) (auto split: option.splits)
  show ?case
  proof (cases "i < length vs \<and> vs ! i < searchValue")
    case True
    then have rd: "vec_at vs i = Inr (vs ! i)" by (simp add: vec_at_def)
    from True have ne: "vs ! i \<noteq> searchValue" and ng: "\<not> searchValue < vs ! i"
      and nl: "\<not> length vs \<le> i" by simp_all
    let ?res' = "(res\<lparr>guesses := guesses res + 1\<rparr>)\<lparr>index := Some (i + 1)\<rparr>"
    have run: "LinearSearch_loop vs searchValue ?res' = Inr r"
      using "1.prems"(1) i True
      by (subst (asm) LinearSearch_loop.simps) (simp add: vec_at_def Let_def)
    show ?thesis
      using "1.prems"(3)
      by (intro "1.IH" [OF i nl refl rd ne ng run "1.prems"(2)]) simp
  next
    case False
    with "1.prems" i show ?thesis
      by (subst (asm) LinearSearch_loop.simps)
         (auto simp: vec_at_def Let_def split: if_splits)
  qed
qed

lemma LinearSearch_found:
  assumes "TestList_LinearSearch values searchValue = Inr r" "found r"
  shows "\<exists>k. index r = Some k \<and> k < length values \<and> values ! k = searchValue"
  using assms unfolding TestList_LinearSearch_def
  by (intro LinearSearch_loop_found [where res = "\<lparr>found = False, index = Some 0, guesses = 0\<rparr>"]) simp_all

lemma BinarySearch_body_found:
  assumes "BinarySearch_body values searchValue st = Inr (Done r)" "found r" "\<not> found (ret st)"
  shows "\<exists>k. index r = Some k \<and> k < length values \<and> values ! k = searchValue"
  using assms
  by (auto simp: BinarySearch_body_def BinarySearch_check_def Let_def dec_def vec_at_def
           split: sum.splits if_splits)

lemma BinarySearch_loop_found:
  assumes "BinarySearch_loop values searchValue st = Inr r" "found r" "\<not> found (ret st)"
  shows "\<exists>k. index r = Some k \<and> k < length values \<and> values ! k = searchValue"
  using assms
proof (induction "values" searchValue st rule: BinarySearch_loop.induct)
  case (1 vs searchValue st)
  from "1.prems"(1) consider
    (finish) "BinarySearch_body vs searchValue st = Inr (Done r)"
    | (again) st' where "BinarySearch_body vs searchValue st = Inr (Continue st')"
        "BinarySearch_loop vs searchValue st' = Inr r"
    by (subst (asm) BinarySearch_loop.simps) (auto split: sum.splits step.splits)
  then show ?case
  proof cases
    case finish
    from BinarySearch_body_found [OF finish "1.prems"(2,3)] show ?thesis .
  next
    case again
    from BinarySearch_body_ret [OF again(1)] "1.prems"(3) have "\<not> found (ret st')" by simp
    from "1.IH" [OF again(1) refl again(2) "1.prems"(2) this] show ?thesis .
  qed
qed

lemma BinarySearch_found:
  assumes "TestList_BinarySearch values searchValue = Inr r" "found r"
  shows "\<exists>k. index r = Some k \<and> k < length values \<and> values ! k = searchValue"
proof -
  from assms(1) have
    "BinarySearch_loop values searchValue
       \<lparr>minIndex = 0, maxIndex = length values - 1,
        ret = \<lparr>found = False, index = None, guesses = 0\<rparr>\<rparr> = Inr r"
    by (auto simp: TestList_BinarySearch_def dec_def split: if_splits)
  from BinarySearch_loop_found [OF this assms(2)] show ?thesis by simp
qed

lemma LineFit_body_found:
  assumes "LineFit_body ops values searchValue st = Inr (Done r)" "found r"
  shows "\<exists>k. index r = Some k \<and> k < length values \<and> values ! k = searchValue"
  using assms
  by (auto simp: LineFit_body_def Let_def vec_at_def split: sum.splits if_splits)

lemma LineFit_loop_found:
  assumes "LineFit_loop ops values searchValue st = Inr r" "found r"
  shows "\<exists>k. index r = Some k \<and> k < length values \<and> values ! k = searchValue"
  using assms
proof (induction ops "values" searchValue st rule: LineFit_loop.induct)
  case (1 ops vs searchValue st)
  from "1.prems"(1) consider
    (finish) "LineFit_body ops vs searchValue st = Inr (Done r)"
    | (again) st' where "LineFit_body ops vs searchValue st = Inr (Continue st')"
        "LineFit_loop ops vs searchValue st' = Inr r"
    by (subst (asm) LineFit_loop.simps) (auto split: sum.splits step.splits)
  then show ?case
  proof cases
    case finish
    from LineFit_body_found [OF finish "1.prems"(2)] show ?thesis .
  next
    case again
    from "1.IH" [OF again(1) refl again(2) "1.prems"(2)] show ?thesis .
  qed
qed

lemma LineFit_found:
  assumes "TestList_LineFit ops values searchValue = Inr r" "found r"
  shows "\<exists>k. index r = Some k \<and> k < length values \<and> values ! k = searchValue"
proof -
  let ?mxI = "length values - 1"
  from assms consider
    (ends) "values \<noteq> []" "r = \<lparr>found = True, index = Some 0, guesses = 0\<rparr>" "values ! 0 = searchValue"
    | (ende) "values \<noteq> []" "r = \<lparr>found = True, index = Some ?mxI, guesses = 0\<rparr>"
        "values ! ?mxI = searchValue"
    | (loop) "LineFit_loop ops values searchValue
                (LineFit_init ops ?mxI (values ! 0) (values ! ?mxI)) = Inr r"
    by (auto simp: TestList_LineFit_def dec_def vec_at_def Let_def split: if_splits)
  then show ?thesis
  proof cases
    case ends
    then show ?thesis by simp
  next
    case ende
    then show ?thesis by simp
  next
    case loop
    from LineFit_loop_found [OF loop assms(2)] show ?thesis .
  qed
qed

lemma LineFitBlind_found:
  assumes "TestList_LineFitBlind ops values searchValue = Inr r" "found r"
  shows "\<exists>k. index r = Some k \<and> k < length values \<and> values ! k = searchValue"
proof -
  from assms(1) obtain r0 where r0: "TestList_LineFit ops values searchValue = Inr r0"
    and r: "r = r0\<lparr>guesses := guesses r0 + 2\<rparr>"
    by (auto simp: TestList_LineFitBlind_def split: sum.splits)
  with assms(2) have "found r0" by simp
  from LineFit_found [OF r0 this] r show ?thesis by simp
qed

lemma Hybrid_body_found:
  assumes "Hybrid_body ops values searchValue st = Inr (Done r)" "found r"
  shows "\<exists>k. index r = Some k \<and> k < length values \<and> values ! k = searchValue"
  using assms
  by (auto simp: Hybrid_body_def Let_def vec_at_def split: sum.splits if_splits)

lemma Hybrid_loop_found:
  assumes "Hybrid_loop ops values searchValue st = Inr r" "found r"
  shows "\<exists>k. index r = Some k \<and> k < length values \<and> values ! k = searchValue"
  using assms
proof (induction ops "values" searchValue st rule: Hybrid_loop.induct)
  case (1 ops vs searchValue st)
  from "1.prems"(1) consider
    (finish) "Hybrid_body ops vs searchValue st = Inr (Done r)"
    | (again) st' where "Hybrid_body ops vs searchValue st = Inr (Continue st')"
        "Hybrid_loop ops vs searchValue st' = Inr r"
    by (subst (asm) Hybrid_loop.simps) (auto split: sum.splits step.splits)
  then show ?case
  proof cases
    case finish
    from Hybrid_body_found [OF finish "1.prems"(2)] show ?thesis .
  next
    case again
    from "1.IH" [OF again(1) refl again(2) "1.prems"(2)] show ?thesis .
  qed
qed

lemma Hybrid_found:
  assumes "TestList_HybridSearch ops values searchValue = Inr r" "found r"
  shows "\<exists>k. index r = Some k \<and> k < length values \<and> values ! k = searchValue"
proof -
  let ?mxI = "length values - 1"
  from assms consider
    (ends) "values \<noteq> []" "r = \<lparr>found = True, index = Some 0, guesses = 0\<rparr>" "values ! 0 = searchValue"
    | (ende) "values \<noteq> []" "r = \<lparr>found = True, index = Some ?mxI, guesses = 0\<rparr>"
        "values ! ?mxI = searchValue"
    | (loop) "Hybrid_loop ops values searchValue
                (Hybrid_init ops ?mxI (values ! 0) (values ! ?mxI)) = Inr r"
    by (auto simp: TestList_HybridSearch_def dec_def vec_at_def Let_def split: if_splits)
  then show ?thesis
  proof cases
    case ends
    then show ?thesis by simp
  next
    case ende
    then show ?thesis by simp
  next
    case loop
    from Hybrid_loop_found [OF loop assms(2)] show ?thesis .
  qed
qed

text \<open>Every result a search hands to the verifier can be read by it.\<close>

lemma results_readable:
  assumes "res = TestList_LinearSearch values searchValue \<or>
           res = TestList_BinarySearch values searchValue \<or>
           res = TestList_LineFit ops values searchValue \<or>
           res = TestList_LineFitBlind ops values searchValue \<or>
           res = TestList_HybridSearch ops values searchValue"
    and "res = Inr r"
  shows "readable values r"
proof (cases "found r")
  case False
  then show ?thesis by (simp add: readable_def)
next
  case True
  from assms have "\<exists>k. index r = Some k \<and> k < length values \<and> values ! k = searchValue"
    using LinearSearch_found [of "values" searchValue r, OF _ True]
      BinarySearch_found [of "values" searchValue r, OF _ True]
      LineFit_found [of ops "values" searchValue r, OF _ True]
      LineFitBlind_found [of ops "values" searchValue r, OF _ True]
      Hybrid_found [of ops "values" searchValue r, OF _ True]
    by metis
  then show ?thesis by (auto simp: readable_def)
qed

subsection \<open>Passes of the hybrid loop\<close>

lemma Hybrid_entered:
  assumes "values \<noteq> []" "values ! 0 < searchValue" "searchValue < values ! (length values - 1)"
  shows "TestList_HybridSearch ops values searchValue =
           Hybrid_loop ops values searchValue (Hybrid_entry ops values)"
  using assms
  by (simp add: TestList_HybridSearch_def Hybrid_entry_def dec_def vec_at_def Let_def)

lemma Hybrid_entry_ok:
  assumes "values \<noteq> []" "values ! 0 < searchValue" "searchValue < values ! (length values - 1)"
  shows "bracket_ok values (Hybrid_entry ops values)"
  using assms entry_bracket [of "values" searchValue]
  by (simp add: bracket_ok_def Hybrid_entry_def)

lemma Hybrid_state_shift:
  assumes "Hybrid_body ops values searchValue st = Inr (Continue st')"
  shows "Hybrid_state ops values searchValue st (Suc n) = Hybrid_state ops values searchValue st' n"
proof (induction n)
  case 0
  from assms show ?case by simp
next
  case (Suc n)
  then show ?case by simp
qed

lemma Hybrid_state_ok:
  assumes "bracket_ok values st0" "Hybrid_state ops values searchValue st0 k = Some st"
  shows "bracket_ok values st \<and> guesses (ret st) = guesses (ret st0) + k"
  using assms(2)
proof (induction k arbitrary: st)
  case 0
  with assms(1) show ?case by simp
next
  case (Suc k)
  from Hybrid_state_Suc [OF Suc.prems] obtain st1 where
    s: "Hybrid_state ops values searchValue st0 k = Some st1"
    and b: "Hybrid_body ops values searchValue st1 = Inr (Continue st)" by blast
  from Suc.IH [OF s] have ok: "bracket_ok values st1"
    and g: "guesses (ret st1) = guesses (ret st0) + k" by simp_all
  from Hybrid_body_step [OF ok, of ops searchValue] b have "bracket_ok values st" by auto
  with Hybrid_body_ret [OF b] g show ?case by simp
qed

lemma Hybrid_last_pass:
  assumes "bracket_ok values st"
  shows "\<exists>n stn r. Hybrid_state ops values searchValue st n = Some stn \<and>
                  Hybrid_body ops values searchValue stn = Inr (Done r)"
  using assms
proof (induction ops "values" searchValue st rule: Hybrid_loop.induct)
  case (1 ops vs searchValue st)
  from Hybrid_body_step [OF "1.prems", of ops searchValue]
  show ?case
  proof (elim disjE exE conjE)
    fix r assume "Hybrid_body ops vs searchValue st = Inr (Done r)"
    then have "Hybrid_state ops vs searchValue st 0 = Some st \<and>
               Hybrid_body ops vs searchValue st = Inr (Done r)" by simp
    then show ?thesis by blast
  next
    fix st' assume b: "Hybrid_body ops vs searchValue st = Inr (Continue st')"
      and i: "bracket_ok vs st'"
    from "1.IH" [OF b refl i] obtain n stn r where
      "Hybrid_state ops vs searchValue st' n = Some stn"
      "Hybrid_body ops vs searchValue stn = Inr (Done r)" by blast
    with Hybrid_state_shift [OF b, of n] have
      "Hybrid_state ops vs searchValue st (Suc n) = Some stn \<and>
       Hybrid_body ops vs searchValue stn = Inr (Done r)" by simp
    then show ?thesis by blast
  qed
qed

lemma Hybrid_body_guesses:
  assumes "Hybrid_body ops values searchValue st = Inr (Done r)"
  shows "guesses r = guesses (ret st) + 1"
  using assms
  by (auto simp: Hybrid_body_def Let_def split: sum.splits if_splits)

lemma Hybrid_loop_Done:
  assumes "Hybrid_body ops values searchValue st = Inr (Done r)"
  shows "Hybrid_loop ops values searchValue st = Inr r"
  using assms by (subst Hybrid_loop.simps) simp

subsection \<open>Generators\<close>

lemma ln3_over_ln2: "4 / 3 \<le> ln (3 :: real) / ln 2"
proof -
  have "ln (2 / 3 :: real) \<le> 2 / 3 - 1" by (rule ln_le_minus_one) simp
  then have a: "ln (2 :: real) + 1 / 3 \<le> ln 3" by (simp add: ln_div)
  have "ln (2 :: real) \<le> 2 - 1" by (rule ln_le_minus_one) simp
  then have b: "ln (2 :: real) \<le> 1" by simp
  have pos: "0 < ln (2 :: real)" by simp
  from a b have "4 / 3 * ln (2 :: real) \<le> ln 3" by simp
  with pos show ?thesis by (simp add: field_simps)
qed

lemma MakeList_Log_two:
  "\<exists>v. MakeList_Log 2 = Inr [2000, v] \<and> c_maxValue < v"
proof -
  define v where "v = to_size_t (ln (3 :: real) / ln 2 * real c_maxValue)"
  have nz: "ln (2 :: real) \<noteq> 0" by simp
  have v0: "Log_value 2 0 = Inr 2000"
    using nz by (simp add: Log_value_def Log_maxValue_def fdiv_def c_maxValue_def to_size_t_def)
  have v1: "Log_value 2 1 = Inr v"
    using nz by (simp add: Log_value_def Log_maxValue_def fdiv_def v_def)
  define x where "x = ln (3 :: real) / ln 2 * real c_maxValue"
  have "(2666 :: real) \<le> 4 / 3 * 2000" by simp
  also have "\<dots> \<le> ln (3 :: real) / ln 2 * 2000"
    using ln3_over_ln2 by (intro mult_right_mono) simp_all
  finally have "of_int 2666 \<le> x" by (simp add: x_def c_maxValue_def)
  then have "(2666 :: int) \<le> \<lfloor>x\<rfloor>" by (simp only: le_floor_iff)
  then have "2666 \<le> nat \<lfloor>x\<rfloor>" by linarith
  then have big: "2666 \<le> v" by (simp only: v_def to_size_t_def x_def)
  have "[0..<2] = [0, 1 :: nat]" by (simp add: upt_rec)
  with v0 v1 have "fill (Log_value 2) [0..<2] = Inr [2000, v]" by simp
  moreover from big have "sort [2000, v] = [2000, v]" by simp
  ultimately have "MakeList_Log 2 = Inr [2000, v]" by (simp add: MakeList_Log_def)
  with big show ?thesis by (auto simp: c_maxValue_def)
qed

section \<open>Properties\<close>

text \<open>
  C1. On a sorted, non-empty sequence that holds the target, each of the five searches
  (linear, binary, line fit, line fit blind, hybrid) returns \<open>found = true\<close> and an index
  at which the sequence holds the target. For the line fit and the hybrid search this
  holds whatever index the float estimate yields.
\<close>

theorem hits_are_found:
  assumes "sorted values" and "values \<noteq> []" and "searchValue \<in> set values"
  shows "hit values searchValue (TestList_LinearSearch values searchValue) \<and>
         hit values searchValue (TestList_BinarySearch values searchValue) \<and>
         hit values searchValue (TestList_LineFit ops values searchValue) \<and>
         hit values searchValue (TestList_LineFitBlind ops values searchValue) \<and>
         hit values searchValue (TestList_HybridSearch ops values searchValue)"
  using assms
  by (intro conjI LinearSearch_hit BinarySearch_hit LineFit_hit LineFitBlind_hit Hybrid_hit)

theorem hits_are_found_witness:
  "sorted [1, 3, 3, 3, 7 :: nat] \<and> [1, 3, 3, 3, 7 :: nat] \<noteq> [] \<and> (3 :: nat) \<in> set [1, 3, 3, 3, 7] \<and>
   hit [1, 3, 3, 3, 7] 3 (TestList_LinearSearch [1, 3, 3, 3, 7] 3) \<and>
   hit [1, 3, 3, 3, 7] 3 (TestList_BinarySearch [1, 3, 3, 3, 7] 3) \<and>
   hit [1, 3, 3, 3, 7] 3 (TestList_LineFit exact_ops [1, 3, 3, 3, 7] 3) \<and>
   hit [1, 3, 3, 3, 7] 3 (TestList_LineFitBlind exact_ops [1, 3, 3, 3, 7] 3) \<and>
   hit [1, 3, 3, 3, 7] 3 (TestList_HybridSearch exact_ops [1, 3, 3, 3, 7] 3)"
proof -
  have h: "sorted [1, 3, 3, 3, 7 :: nat]" "[1, 3, 3, 3, 7 :: nat] \<noteq> []"
    "(3 :: nat) \<in> set [1, 3, 3, 3, 7]" by simp_all
  from hits_are_found [OF h, of exact_ops] h show ?thesis by blast
qed

text \<open>
  C2. On a non-empty sequence Line Fit Blind returns the found flag and the index of Line
  Fit on the same input, and its guess count is that of Line Fit plus 2.
\<close>

theorem LineFitBlind_adds_two:
  assumes "values \<noteq> []"
  shows "\<exists>r b. TestList_LineFit ops values searchValue = Inr r \<and>
               TestList_LineFitBlind ops values searchValue = Inr b \<and>
               found b = found r \<and> index b = index r \<and> guesses b = guesses r + 2"
proof -
  from LineFit_returns [OF assms, of ops searchValue] obtain r
    where "TestList_LineFit ops values searchValue = Inr r" by blast
  then show ?thesis by (simp add: TestList_LineFitBlind_def)
qed

theorem LineFitBlind_adds_two_witness:
  "[0, 10, 20, 30, 40, 50, 60, 70, 80, 90, 9000 :: nat] \<noteq> [] \<and>
   (\<exists>r b. TestList_LineFit exact_ops [0, 10, 20, 30, 40, 50, 60, 70, 80, 90, 9000] 50 = Inr r \<and>
          TestList_LineFitBlind exact_ops [0, 10, 20, 30, 40, 50, 60, 70, 80, 90, 9000] 50 = Inr b \<and>
          found b = found r \<and> index b = index r \<and> guesses b = guesses r + 2)"
  using LineFitBlind_adds_two [of "[0, 10, 20, 30, 40, 50, 60, 70, 80, 90, 9000]" exact_ops 50]
  by simp

text \<open>
  C3, as the claim states it, fails: on the two-element sequence \<open>[1, 5]\<close> with target 3
  the loop is entered with the bracket \<open>[0, 1]\<close>, which has no position strictly inside;
  \<open>Clamp(1, 0, guessIndex)\<close> yields an end of the bracket (here \<open>minIndex\<close>), the bracket
  does not shrink in that pass, and the loop leaves with \<open>found = false\<close> after one guess.
  By \<open>LineFit_probe_adjacent\<close> the probe is an end of such a bracket for every estimate.
\<close>

theorem LineFit_first_probe_on_bracket_end:
  "LineFit_probe exact_ops 3 (LineFit_init exact_ops 1 1 5) = Inr 0 \<and>
   minIndex (LineFit_init exact_ops 1 1 5) = 0 \<and>
   LineFit_body exact_ops [1, 5] 3 (LineFit_init exact_ops 1 1 5) =
     Inr (Done \<lparr>found = False, index = None, guesses = 1\<rparr>) \<and>
   TestList_LineFit exact_ops [1, 5] 3 = Inr \<lparr>found = False, index = None, guesses = 1\<rparr>"
  by code_simp

text \<open>
  C3, amended. Line Fit returns on every non-empty input, after fewer guesses than the
  sequence has elements. In a pass that starts with a bracket that has a position strictly
  inside (\<open>minIndex + 1 < maxIndex\<close>) the probe index lies in \<open>minIndex + 1 .. maxIndex - 1\<close>.
  Every pass that goes round again leaves a bracket inside the old one and strictly
  narrower. A pass whose probe misses the target and leaves \<open>minIndex + 1 >= maxIndex\<close>
  returns \<open>found = false\<close>.
\<close>

theorem LineFit_terminates:
  "(values \<noteq> [] \<longrightarrow>
      (\<exists>r. TestList_LineFit ops values searchValue = Inr r \<and> guesses r < length values)) \<and>
   (bracket_ok values st \<and> minIndex st + 1 < maxIndex st \<longrightarrow>
      (\<exists>g. LineFit_probe ops searchValue st = Inr g \<and> minIndex st + 1 \<le> g \<and> g \<le> maxIndex st - 1)) \<and>
   (bracket_ok values st \<and> LineFit_body ops values searchValue st = Inr (Continue st') \<longrightarrow>
      minIndex st \<le> minIndex st' \<and> maxIndex st' \<le> maxIndex st \<and>
      maxIndex st' - minIndex st' < maxIndex st - minIndex st) \<and>
   (LineFit_probe ops searchValue st2 = Inr g2 \<and> vec_at values g2 = Inr v \<and> v \<noteq> searchValue \<and>
    maxIndex (narrow searchValue g2 v st2) \<le> minIndex (narrow searchValue g2 v st2) + 1 \<longrightarrow>
      LineFit_body ops values searchValue st2 =
        Inr (Done ((ret st2)\<lparr>guesses := guesses (ret st2) + 1, found := False\<rparr>)))"
proof (intro conjI impI)
  assume "values \<noteq> []"
  then show "\<exists>r. TestList_LineFit ops values searchValue = Inr r \<and> guesses r < length values"
    by (rule LineFit_returns)
next
  assume a: "bracket_ok values st \<and> minIndex st + 1 < maxIndex st"
  then have "minIndex st < maxIndex st" by simp
  from LineFit_probe_inv [OF this, of ops searchValue] a
  show "\<exists>g. LineFit_probe ops searchValue st = Inr g \<and> minIndex st + 1 \<le> g \<and> g \<le> maxIndex st - 1"
    by blast
next
  assume a: "bracket_ok values st \<and> LineFit_body ops values searchValue st = Inr (Continue st')"
  then have "bracket_ok values st" "LineFit_body ops values searchValue st = Inr (Continue st')"
    by simp_all
  then have "minIndex st \<le> minIndex st' \<and> maxIndex st' \<le> maxIndex st \<and>
         maxIndex st' - minIndex st' < maxIndex st - minIndex st"
    by (rule LineFit_body_shrinks)
  then show "minIndex st \<le> minIndex st'" "maxIndex st' \<le> maxIndex st"
    "maxIndex st' - minIndex st' < maxIndex st - minIndex st" by simp_all
next
  assume "LineFit_probe ops searchValue st2 = Inr g2 \<and> vec_at values g2 = Inr v \<and> v \<noteq> searchValue \<and>
    maxIndex (narrow searchValue g2 v st2) \<le> minIndex (narrow searchValue g2 v st2) + 1"
  then show "LineFit_body ops values searchValue st2 =
        Inr (Done ((ret st2)\<lparr>guesses := guesses (ret st2) + 1, found := False\<rparr>))"
    by (intro LineFit_body_exit [where g = g2 and v = v]) simp_all
qed

theorem LineFit_terminates_witness:
  "[0, 1, 3, 4, 40 :: nat] \<noteq> [] \<and>
   (\<exists>r. TestList_LineFit exact_ops [0, 1, 3, 4, 40] 2 = Inr r \<and>
        guesses r < length [0, 1, 3, 4, 40 :: nat]) \<and>
   bracket_ok [0, 1, 3, 4, 40] (LineFit_init exact_ops 4 0 40) \<and>
   minIndex (LineFit_init exact_ops 4 0 40) + 1 < maxIndex (LineFit_init exact_ops 4 0 40) \<and>
   (\<exists>g. LineFit_probe exact_ops 2 (LineFit_init exact_ops 4 0 40) = Inr g \<and>
        minIndex (LineFit_init exact_ops 4 0 40) + 1 \<le> g \<and>
        g \<le> maxIndex (LineFit_init exact_ops 4 0 40) - 1) \<and>
   LineFit_body exact_ops [0, 1, 3, 4, 40] 2 (LineFit_init exact_ops 4 0 40) =
     Inr (Continue \<lparr>minIndex = 1, maxIndex = 4,
                      ret = \<lparr>found = True, index = None, guesses = 1\<rparr>,
                      minV = 1, maxV = 40, fm = 13, fb = - 12\<rparr>) \<and>
   (4 :: nat) - 1 < maxIndex (LineFit_init exact_ops 4 0 40) - minIndex (LineFit_init exact_ops 4 0 40) \<and>
   LineFit_probe exact_ops 2
       \<lparr>minIndex = 1, maxIndex = 4, ret = \<lparr>found = True, index = None, guesses = 1\<rparr>,
        minV = 1, maxV = 40, fm = 13, fb = - 12\<rparr> = Inr 2 \<and>
   vec_at [0, 1, 3, 4, 40] 2 = Inr 3 \<and>
   LineFit_body exact_ops [0, 1, 3, 4, 40] 2
       \<lparr>minIndex = 1, maxIndex = 4, ret = \<lparr>found = True, index = None, guesses = 1\<rparr>,
        minV = 1, maxV = 40, fm = 13, fb = - 12\<rparr> =
     Inr (Done \<lparr>found = False, index = None, guesses = 2\<rparr>)"
proof -
  let ?vs = "[0, 1, 3, 4, 40 :: nat]"
  let ?st = "LineFit_init exact_ops 4 0 40"
  let ?st' = "\<lparr>minIndex = 1, maxIndex = 4, ret = \<lparr>found = True, index = None, guesses = 1\<rparr>,
               minV = 1, maxV = 40, fm = 13 :: rat, fb = - 12\<rparr>"
  have h1: "?vs \<noteq> []" by simp
  have h2: "bracket_ok ?vs ?st" by (simp add: bracket_ok_def)
  have h3: "minIndex ?st + 1 < maxIndex ?st" by simp
  have h4: "LineFit_body exact_ops ?vs 2 ?st = Inr (Continue ?st')" by code_simp
  have h5: "LineFit_probe exact_ops 2 ?st' = Inr 2" by code_simp
  have h6: "vec_at ?vs 2 = Inr 3" by code_simp
  have h7: "(3 :: nat) \<noteq> 2" by simp
  have h8: "maxIndex (narrow 2 2 3 ?st') \<le> minIndex (narrow 2 2 3 ?st') + 1"
    by (simp add: narrow_def)
  from LineFit_terminates [of ?vs exact_ops 2 ?st ?st' ?st' 2 3] h1 h2 h3 h4 h5 h6 h7 h8
  show ?thesis by simp
qed

text \<open>
  C4. Binary search on a non-empty sequence returns a result: the decrements
  \<open>values.size() - 1\<close> and \<open>guessIndex - 1\<close> never wrap around. A pass that probes index 0
  and reads a value above the target returns at once, with \<open>found = false\<close>; and whenever
  a pass changes \<open>maxIndex\<close> and goes round again, the probed index was positive and the
  new \<open>maxIndex\<close> is that index less one.
\<close>

theorem BinarySearch_no_underflow:
  "(values \<noteq> [] \<longrightarrow> (\<exists>r. TestList_BinarySearch values searchValue = Inr r)) \<and>
   ((minIndex st + maxIndex st) div 2 = 0 \<and> vec_at values 0 = Inr v \<and> searchValue < v \<and>
    \<not> found (ret st) \<longrightarrow>
      (\<exists>r. BinarySearch_body values searchValue st = Inr (Done r) \<and> \<not> found r)) \<and>
   (BinarySearch_body values searchValue st2 = Inr (Continue st') \<and> maxIndex st' \<noteq> maxIndex st2 \<longrightarrow>
      0 < (minIndex st2 + maxIndex st2) div 2 \<and>
      maxIndex st' = (minIndex st2 + maxIndex st2) div 2 - 1)"
proof (intro conjI impI)
  assume "values \<noteq> []"
  then show "\<exists>r. TestList_BinarySearch values searchValue = Inr r"
    by (rule BinarySearch_returns)
next
  assume a: "(minIndex st + maxIndex st) div 2 = 0 \<and> vec_at values 0 = Inr v \<and> searchValue < v \<and>
    \<not> found (ret st)"
  then have "BinarySearch_body values searchValue st =
           Inr (Done ((ret st)\<lparr>guesses := guesses (ret st) + 1\<rparr>))"
    by (intro BinarySearch_body_guard [where v = v]) simp_all
  with a show "\<exists>r. BinarySearch_body values searchValue st = Inr (Done r) \<and> \<not> found r"
    by simp
next
  assume a: "BinarySearch_body values searchValue st2 = Inr (Continue st') \<and>
    maxIndex st' \<noteq> maxIndex st2"
  then have b: "BinarySearch_body values searchValue st2 = Inr (Continue st')"
    and c: "maxIndex st' \<noteq> maxIndex st2" by simp_all
  from BinarySearch_body_decrement [OF b c]
  show "0 < (minIndex st2 + maxIndex st2) div 2"
    "maxIndex st' = (minIndex st2 + maxIndex st2) div 2 - 1" by simp_all
qed

theorem BinarySearch_no_underflow_witness:
  "[1, 3, 5, 7, 9 :: nat] \<noteq> [] \<and>
   (\<exists>r. TestList_BinarySearch [1, 3, 5, 7, 9] 0 = Inr r) \<and>
   (minIndex \<lparr>minIndex = 0, maxIndex = 1, ret = \<lparr>found = False, index = None, guesses = 1\<rparr>\<rparr> +
    maxIndex \<lparr>minIndex = 0, maxIndex = 1, ret = \<lparr>found = False, index = None, guesses = 1\<rparr>\<rparr>) div 2 = 0 \<and>
   vec_at [1, 3, 5, 7, 9] 0 = Inr 1 \<and> (0 :: nat) < 1 \<and>
   (\<exists>r. BinarySearch_body [1, 3, 5, 7, 9] 0
          \<lparr>minIndex = 0, maxIndex = 1, ret = \<lparr>found = False, index = None, guesses = 1\<rparr>\<rparr> =
          Inr (Done r) \<and> \<not> found r) \<and>
   BinarySearch_body [1, 3, 5, 7, 9] 0
       \<lparr>minIndex = 0, maxIndex = 4, ret = \<lparr>found = False, index = None, guesses = 0\<rparr>\<rparr> =
     Inr (Continue \<lparr>minIndex = 0, maxIndex = 1,
                      ret = \<lparr>found = False, index = None, guesses = 1\<rparr>\<rparr>) \<and>
   (0 :: nat) < (0 + 4) div 2 \<and> (1 :: nat) = (0 + 4) div 2 - 1"
proof -
  let ?vs = "[1, 3, 5, 7, 9 :: nat]"
  let ?st0 = "\<lparr>minIndex = 0, maxIndex = 4, ret = \<lparr>found = False, index = None, guesses = 0\<rparr>\<rparr>"
  let ?st1 = "\<lparr>minIndex = 0, maxIndex = 1, ret = \<lparr>found = False, index = None, guesses = 1\<rparr>\<rparr>"
  have h1: "?vs \<noteq> []" by simp
  have h2: "(minIndex ?st1 + maxIndex ?st1) div 2 = 0" by simp
  have h3: "vec_at ?vs 0 = Inr 1" by (simp add: vec_at_def)
  have h4: "(0 :: nat) < 1" by simp
  have h5: "\<not> found (ret ?st1)" by simp
  have h6: "BinarySearch_body ?vs 0 ?st0 = Inr (Continue ?st1)" by code_simp
  have h7: "maxIndex ?st1 \<noteq> maxIndex ?st0" by simp
  from BinarySearch_no_underflow [of ?vs 0 ?st1 1 ?st0 ?st1] h1 h2 h3 h4 h5 h6 h7
  show ?thesis by simp
qed

text \<open>
  C10. On a non-empty sequence, sorted or not, none of the five searches reads an element
  at an index outside the sequence.
\<close>

theorem reads_in_bounds:
  assumes "values \<noteq> []"
  shows "TestList_LinearSearch values searchValue \<noteq> Inl OutOfBounds \<and>
         TestList_BinarySearch values searchValue \<noteq> Inl OutOfBounds \<and>
         TestList_LineFit ops values searchValue \<noteq> Inl OutOfBounds \<and>
         TestList_LineFitBlind ops values searchValue \<noteq> Inl OutOfBounds \<and>
         TestList_HybridSearch ops values searchValue \<noteq> Inl OutOfBounds"
  using LinearSearch_returns [of "values" searchValue]
    BinarySearch_returns [OF assms, of searchValue]
    LineFit_returns [OF assms, of ops searchValue]
    LineFitBlind_returns [OF assms, of ops searchValue]
    Hybrid_returns [OF assms, of ops searchValue]
  by auto

theorem reads_in_bounds_witness:
  "[9, 1, 7, 0, 8 :: nat] \<noteq> [] \<and>
   TestList_LinearSearch [9, 1, 7, 0, 8] 5 \<noteq> Inl OutOfBounds \<and>
   TestList_BinarySearch [9, 1, 7, 0, 8] 5 \<noteq> Inl OutOfBounds \<and>
   TestList_LineFit exact_ops [9, 1, 7, 0, 8] 5 \<noteq> Inl OutOfBounds \<and>
   TestList_LineFitBlind exact_ops [9, 1, 7, 0, 8] 5 \<noteq> Inl OutOfBounds \<and>
   TestList_HybridSearch exact_ops [9, 1, 7, 0, 8] 5 \<noteq> Inl OutOfBounds"
  using reads_in_bounds [of "[9, 1, 7, 0, 8]" 5 exact_ops] by simp

text \<open>
  C5. Let \<open>TestList_HybridSearch\<close> enter its loop (the sequence is not empty and the target
  lies strictly between its ends), and let \<open>st\<close> be the state at the head of pass \<open>k\<close> of
  that loop, counted from 0. Then \<open>doBinaryStep\<close> is true exactly when \<open>k\<close> is odd and \<open>k\<close>
  guesses have been counted. Pass \<open>k\<close> reads the element at the clamped line-fit estimate
  when \<open>k\<close> is even (the first pass is pass 0) and at the clamped
  \<open>(minIndex + maxIndex) / 2\<close> when \<open>k\<close> is odd, and does with that element what the loop
  body says; when it goes round again the flag is flipped, whatever happened to the
  bracket. The passes are those of the function: a pass that returns gives the result of
  \<open>TestList_HybridSearch\<close>, whose guess count is the number of passes made, and some pass
  does return.
\<close>

theorem Hybrid_alternates:
  assumes "values \<noteq> []" and "values ! 0 < searchValue"
    and "searchValue < values ! (length values - 1)"
    and "Hybrid_state ops values searchValue (Hybrid_entry ops values) k = Some st"
  shows "doBinaryStep st = odd k \<and> guesses (ret st) = k \<and>
         (\<exists>hi g. dec (maxIndex st) = Inr hi \<and>
            g = Clamp (minIndex st + 1) hi
                  (if odd k then (minIndex st + maxIndex st) div 2
                   else estimate ops searchValue (fb st) (fm st)) \<and>
            g < length values \<and>
            Hybrid_body ops values searchValue st =
              (let r = (ret st)\<lparr>guesses := k + 1\<rparr> in
               if values ! g = searchValue then Inr (Done (r\<lparr>index := Some g\<rparr>))
               else
                 let st1 = narrow searchValue g (values ! g) st
                 in if maxIndex st1 \<le> minIndex st1 + 1 then Inr (Done (r\<lparr>found := False\<rparr>))
                    else Inr (Continue ((fit_line ops (st1\<lparr>ret := r\<rparr>))
                                          \<lparr>doBinaryStep := odd (Suc k)\<rparr>)))) \<and>
         (Hybrid_body ops values searchValue st = Inr (Done r) \<longrightarrow>
            TestList_HybridSearch ops values searchValue = Inr r \<and> guesses r = k + 1) \<and>
         (Hybrid_body ops values searchValue st = Inr (Continue st') \<longrightarrow>
            Hybrid_state ops values searchValue (Hybrid_entry ops values) (Suc k) = Some st' \<and>
            doBinaryStep st' = (\<not> doBinaryStep st)) \<and>
         (\<exists>n stn rn. Hybrid_state ops values searchValue (Hybrid_entry ops values) n = Some stn \<and>
            Hybrid_body ops values searchValue stn = Inr (Done rn) \<and>
            TestList_HybridSearch ops values searchValue = Inr rn \<and> guesses rn = n + 1)"
proof -
  let ?e = "Hybrid_entry ops values"
  note entered = Hybrid_entered [OF assms(1,2,3), of ops]
  note ok0 = Hybrid_entry_ok [OF assms(1,2,3), of ops]
  have g0: "guesses (ret ?e) = 0" and d0: "\<not> doBinaryStep ?e"
    by (simp_all add: Hybrid_entry_def)
  have run: "TestList_HybridSearch ops values searchValue = Inr r' \<and> guesses r' = j + 1"
    if "Hybrid_state ops values searchValue ?e j = Some s"
      and "Hybrid_body ops values searchValue s = Inr (Done r')" for j s r'
    using entered Hybrid_state_loop [OF that(1)] Hybrid_loop_Done [OF that(2)]
      Hybrid_state_ok [OF ok0 that(1)] Hybrid_body_guesses [OF that(2)] g0
    by simp
  from Hybrid_state_parity [OF assms(4)] d0 have p: "doBinaryStep st = odd k" by simp
  from Hybrid_state_ok [OF ok0 assms(4)] g0 have ok: "bracket_ok values st"
    and gk: "guesses (ret st) = k" by simp_all
  from ok have lt: "minIndex st < maxIndex st" and len: "maxIndex st < length values"
    by (simp_all add: bracket_ok_def)
  from Hybrid_probe_inv [OF lt, of ops searchValue] obtain g where
    g: "Hybrid_probe ops searchValue st = Inr g" "g \<le> maxIndex st" by blast
  with len have gl: "g < length values" by simp
  from lt have dm: "dec (maxIndex st) = Inr (maxIndex st - 1)" by (simp add: dec_def)
  from g(1) p dm have gf: "g = Clamp (minIndex st + 1) (maxIndex st - 1)
                  (if odd k then (minIndex st + maxIndex st) div 2
                   else estimate ops searchValue (fb st) (fm st))"
    by (simp add: Hybrid_probe_def Let_def)
  have body: "Hybrid_body ops values searchValue st =
              (let r = (ret st)\<lparr>guesses := k + 1\<rparr> in
               if values ! g = searchValue then Inr (Done (r\<lparr>index := Some g\<rparr>))
               else
                 let st1 = narrow searchValue g (values ! g) st
                 in if maxIndex st1 \<le> minIndex st1 + 1 then Inr (Done (r\<lparr>found := False\<rparr>))
                    else Inr (Continue ((fit_line ops (st1\<lparr>ret := r\<rparr>))
                                          \<lparr>doBinaryStep := odd (Suc k)\<rparr>)))"
    using g(1) gl gk p by (simp add: Hybrid_body_def vec_at_def Let_def)
  have c3: "\<exists>hi g. dec (maxIndex st) = Inr hi \<and>
            g = Clamp (minIndex st + 1) hi
                  (if odd k then (minIndex st + maxIndex st) div 2
                   else estimate ops searchValue (fb st) (fm st)) \<and>
            g < length values \<and>
            Hybrid_body ops values searchValue st =
              (let r = (ret st)\<lparr>guesses := k + 1\<rparr> in
               if values ! g = searchValue then Inr (Done (r\<lparr>index := Some g\<rparr>))
               else
                 let st1 = narrow searchValue g (values ! g) st
                 in if maxIndex st1 \<le> minIndex st1 + 1 then Inr (Done (r\<lparr>found := False\<rparr>))
                    else Inr (Continue ((fit_line ops (st1\<lparr>ret := r\<rparr>))
                                          \<lparr>doBinaryStep := odd (Suc k)\<rparr>)))"
    using dm gf gl body by blast
  have c4: "Hybrid_body ops values searchValue st = Inr (Done r) \<longrightarrow>
            TestList_HybridSearch ops values searchValue = Inr r \<and> guesses r = k + 1"
    using run [OF assms(4)] by blast
  have c5: "Hybrid_body ops values searchValue st = Inr (Continue st') \<longrightarrow>
            Hybrid_state ops values searchValue ?e (Suc k) = Some st' \<and>
            doBinaryStep st' = (\<not> doBinaryStep st)"
    using assms(4) Hybrid_body_toggles [of ops "values" searchValue st st'] by simp
  from Hybrid_last_pass [OF ok0, of ops searchValue] obtain n stn rn where
    l: "Hybrid_state ops values searchValue ?e n = Some stn"
      "Hybrid_body ops values searchValue stn = Inr (Done rn)" by blast
  from run [OF l] l have c6: "\<exists>n stn rn. Hybrid_state ops values searchValue ?e n = Some stn \<and>
            Hybrid_body ops values searchValue stn = Inr (Done rn) \<and>
            TestList_HybridSearch ops values searchValue = Inr rn \<and> guesses rn = n + 1"
    by blast
  from p gk c3 c4 c5 c6 show ?thesis by (intro conjI)
qed

theorem Hybrid_alternates_witness:
  "[0, 2, 4, 6, 8, 10, 12, 14, 16, 180 :: nat] \<noteq> [] \<and>
   [0, 2, 4, 6, 8, 10, 12, 14, 16, 180 :: nat] ! 0 < 11 \<and>
   11 < [0, 2, 4, 6, 8, 10, 12, 14, 16, 180 :: nat] !
          (length [0, 2, 4, 6, 8, 10, 12, 14, 16, 180 :: nat] - 1) \<and>
   Hybrid_state exact_ops [0, 2, 4, 6, 8, 10, 12, 14, 16, 180] 11
       (Hybrid_entry exact_ops [0, 2, 4, 6, 8, 10, 12, 14, 16, 180]) 1 =
     Some \<lparr>minIndex = 1, maxIndex = 9, ret = \<lparr>found = True, index = None, guesses = 1\<rparr>,
           minV = 2, maxV = 180, fm = 89 / 4, fb = - (81 / 4), doBinaryStep = True\<rparr> \<and>
   doBinaryStep \<lparr>minIndex = 1, maxIndex = 9, ret = \<lparr>found = True, index = None, guesses = 1\<rparr>,
           minV = 2, maxV = 180, fm = 89 / 4 :: rat, fb = - (81 / 4), doBinaryStep = True\<rparr> =
     odd (1 :: nat) \<and>
   Hybrid_body exact_ops [0, 2, 4, 6, 8, 10, 12, 14, 16, 180] 11
       \<lparr>minIndex = 1, maxIndex = 9, ret = \<lparr>found = True, index = None, guesses = 1\<rparr>,
        minV = 2, maxV = 180, fm = 89 / 4, fb = - (81 / 4), doBinaryStep = True\<rparr> =
     Inr (Continue
       \<lparr>minIndex = 5, maxIndex = 9, ret = \<lparr>found = True, index = None, guesses = 2\<rparr>,
        minV = 10, maxV = 180, fm = 85 / 2, fb = - (405 / 2), doBinaryStep = False\<rparr>) \<and>
   Hybrid_state exact_ops [0, 2, 4, 6, 8, 10, 12, 14, 16, 180] 11
       (Hybrid_entry exact_ops [0, 2, 4, 6, 8, 10, 12, 14, 16, 180]) 2 =
     Some \<lparr>minIndex = 5, maxIndex = 9, ret = \<lparr>found = True, index = None, guesses = 2\<rparr>,
           minV = 10, maxV = 180, fm = 85 / 2, fb = - (405 / 2), doBinaryStep = False\<rparr> \<and>
   Hybrid_body exact_ops [0, 2, 4, 6, 8, 10, 12, 14, 16, 180] 11
       \<lparr>minIndex = 5, maxIndex = 9, ret = \<lparr>found = True, index = None, guesses = 2\<rparr>,
        minV = 10, maxV = 180, fm = 85 / 2, fb = - (405 / 2), doBinaryStep = False\<rparr> =
     Inr (Done \<lparr>found = False, index = None, guesses = 3\<rparr>) \<and>
   TestList_HybridSearch exact_ops [0, 2, 4, 6, 8, 10, 12, 14, 16, 180] 11 =
     Inr \<lparr>found = False, index = None, guesses = 3\<rparr>"
proof -
  let ?vs = "[0, 2, 4, 6, 8, 10, 12, 14, 16, 180 :: nat]"
  let ?st1 = "\<lparr>minIndex = 1, maxIndex = 9, ret = \<lparr>found = True, index = None, guesses = 1\<rparr>,
        minV = 2, maxV = 180, fm = 89 / 4 :: rat, fb = - (81 / 4), doBinaryStep = True\<rparr>"
  let ?st2 = "\<lparr>minIndex = 5, maxIndex = 9, ret = \<lparr>found = True, index = None, guesses = 2\<rparr>,
        minV = 10, maxV = 180, fm = 85 / 2 :: rat, fb = - (405 / 2), doBinaryStep = False\<rparr>"
  let ?r = "\<lparr>found = False, index = None, guesses = 3\<rparr>"
  have a: "?vs \<noteq> []" "?vs ! 0 < 11" "11 < ?vs ! (length ?vs - 1)" by simp_all
  have h1: "Hybrid_state exact_ops ?vs 11 (Hybrid_entry exact_ops ?vs) 1 = Some ?st1"
    by code_simp
  have b1: "Hybrid_body exact_ops ?vs 11 ?st1 = Inr (Continue ?st2)" by code_simp
  have b2: "Hybrid_body exact_ops ?vs 11 ?st2 = Inr (Done ?r)" by code_simp
  note t1 = Hybrid_alternates [OF a h1, of ?r ?st2]
  from t1 have p1: "doBinaryStep ?st1 = odd (1 :: nat)" by (rule conjunct1)
  from t1 b1 have h2: "Hybrid_state exact_ops ?vs 11 (Hybrid_entry exact_ops ?vs) 2 = Some ?st2"
    by (simp only: numeral_2_eq_2 One_nat_def)
  note t2 = Hybrid_alternates [OF a h2, of ?r ?st2]
  from t2 b2 have f: "TestList_HybridSearch exact_ops ?vs 11 = Inr ?r" by blast
  from a h1 p1 b1 h2 b2 f show ?thesis by (intro conjI)
qed

text \<open>
  C6, as the claim states it, fails. Binary search on \<open>[1]\<close> with target 5 examines
  position 0 and returns \<open>found = false\<close> with the index never assigned, and so does the
  line fit on \<open>[1, 5]\<close> with target 3. Linear search on \<open>[1]\<close> with target 5 examines
  position 0 only and returns index 1, which is not a position of the sequence.
\<close>

theorem miss_index_counterexample:
  "TestList_BinarySearch [1] 5 = Inr \<lparr>found = False, index = None, guesses = 1\<rparr> \<and>
   TestList_LineFit exact_ops [1, 5] 3 = Inr \<lparr>found = False, index = None, guesses = 1\<rparr> \<and>
   TestList_LinearSearch [1] 5 = Inr \<lparr>found = False, index = Some 1, guesses = 1\<rparr> \<and>
   \<not> 1 < length [1 :: nat]"
  by code_simp

text \<open>
  C6, amended. When linear search returns \<open>found = false\<close>, its index is the number of
  leading elements below the target: the position of the first element above the target
  (the last one examined, and then \<open>guesses = index + 1\<close>), or the length of the sequence
  when every element is below the target (one past the last one examined, and then
  \<open>guesses = index\<close>). Binary search, line fit, line fit blind and hybrid search return
  \<open>found = false\<close> with the index never assigned.
\<close>

theorem miss_index:
  assumes "values \<noteq> []"
  shows "\<exists>l b f fb h.
           TestList_LinearSearch values searchValue = Inr l \<and>
           TestList_BinarySearch values searchValue = Inr b \<and>
           TestList_LineFit ops values searchValue = Inr f \<and>
           TestList_LineFitBlind ops values searchValue = Inr fb \<and>
           TestList_HybridSearch ops values searchValue = Inr h \<and>
           (\<not> found l \<longrightarrow>
              index l = Some (length (takeWhile (\<lambda>v. v < searchValue) values)) \<and>
              guesses l = min (length values) (length (takeWhile (\<lambda>v. v < searchValue) values) + 1)) \<and>
           (\<not> found b \<longrightarrow> index b = None) \<and>
           (\<not> found f \<longrightarrow> index f = None) \<and>
           (\<not> found fb \<longrightarrow> index fb = None) \<and>
           (\<not> found h \<longrightarrow> index h = None)"
proof -
  from LinearSearch_returns obtain l where l: "TestList_LinearSearch values searchValue = Inr l"
    by blast
  from BinarySearch_returns [OF assms] obtain b where
    b: "TestList_BinarySearch values searchValue = Inr b" by blast
  from LineFit_returns [OF assms] obtain f where
    f: "TestList_LineFit ops values searchValue = Inr f" by blast
  from LineFitBlind_returns [OF assms] obtain fb where
    fb: "TestList_LineFitBlind ops values searchValue = Inr fb" by blast
  from Hybrid_returns [OF assms] obtain h where
    h: "TestList_HybridSearch ops values searchValue = Inr h" by blast
  from l b f fb h LinearSearch_miss [OF l] BinarySearch_miss [OF b] LineFit_miss [OF f]
    LineFitBlind_miss [OF fb] Hybrid_miss [OF h]
  show ?thesis by blast
qed

theorem miss_index_witness:
  "[1 :: nat] \<noteq> [] \<and>
   (\<exists>l b f fb h.
      TestList_LinearSearch [1] 5 = Inr l \<and>
      TestList_BinarySearch [1] 5 = Inr b \<and>
      TestList_LineFit exact_ops [1] 5 = Inr f \<and>
      TestList_LineFitBlind exact_ops [1] 5 = Inr fb \<and>
      TestList_HybridSearch exact_ops [1] 5 = Inr h \<and>
      \<not> found l \<and> index l = Some (length (takeWhile (\<lambda>v. v < 5) [1 :: nat])) \<and>
      guesses l = min (length [1 :: nat]) (length (takeWhile (\<lambda>v. v < 5) [1 :: nat]) + 1) \<and>
      \<not> found b \<and> index b = None \<and> \<not> found f \<and> index f = None \<and>
      \<not> found fb \<and> index fb = None \<and> \<not> found h \<and> index h = None)"
proof -
  have e1: "TestList_LinearSearch [1] 5 = Inr \<lparr>found = False, index = Some 1, guesses = 1\<rparr>"
    by code_simp
  have e2: "TestList_BinarySearch [1] 5 = Inr \<lparr>found = False, index = None, guesses = 1\<rparr>"
    by code_simp
  have e3: "TestList_LineFit exact_ops [1] 5 = Inr \<lparr>found = False, index = None, guesses = 0\<rparr>"
    by code_simp
  have e4: "TestList_LineFitBlind exact_ops [1] 5 = Inr \<lparr>found = False, index = None, guesses = 2\<rparr>"
    by code_simp
  have e5: "TestList_HybridSearch exact_ops [1] 5 = Inr \<lparr>found = False, index = None, guesses = 0\<rparr>"
    by code_simp
  from miss_index [of "[1]" 5 exact_ops] e1 e2 e3 e4 e5 show ?thesis by simp
qed

text \<open>
  C9. For a candidate result whose index can be read, \<open>VerifyResults\<close> prints a failure
  exactly when the found flags of the candidate and of the linear search differ, or both
  are true, the two indices differ and the sequence holds different values at them. Equal
  values at different indices (duplicates) pass.
\<close>

theorem VerifyResults_iff:
  assumes "readable values result"
  shows "\<exists>a v. TestList_LinearSearch values searchValue = Inr a \<and>
               VerifyResults values searchValue result = Inr v \<and>
               ((v \<noteq> Pass) =
                  (found result \<noteq> found a \<or>
                   (found result \<and> found a \<and> index result \<noteq> index a \<and>
                    values ! the (index result) \<noteq> values ! the (index a))))"
proof -
  from LinearSearch_returns obtain a where a: "TestList_LinearSearch values searchValue = Inr a"
    by blast
  show ?thesis
  proof (cases "found result \<and> found a")
    case True
    with LinearSearch_found [OF a] obtain j where j: "index a = Some j" "j < length values"
      by blast
    from True assms obtain i where i: "index result = Some i" "i < length values"
      by (auto simp: readable_def split: option.splits)
    from a True i j show ?thesis
      by (auto simp: VerifyResults_def read_index_def vec_at_def)
  next
    case False
    with a show ?thesis
      by (auto simp: VerifyResults_def)
  qed
qed

theorem VerifyResults_iff_witness:
  "readable [1, 3, 3, 3, 7] \<lparr>found = True, index = Some 3, guesses = 1\<rparr> \<and>
   (\<exists>a v. TestList_LinearSearch [1, 3, 3, 3, 7] 3 = Inr a \<and>
          VerifyResults [1, 3, 3, 3, 7] 3 \<lparr>found = True, index = Some 3, guesses = 1\<rparr> = Inr v \<and>
          found a \<and> index a = Some 1 \<and> v = Pass)"
proof -
  have h: "readable [1, 3, 3, 3, 7] \<lparr>found = True, index = Some 3, guesses = 1\<rparr>"
    by (simp add: readable_def)
  have e: "TestList_LinearSearch [1, 3, 3, 3, 7] 3 = Inr \<lparr>found = True, index = Some 1, guesses = 2\<rparr>"
    by code_simp
  from VerifyResults_iff [OF h, of 3] e h show ?thesis by simp
qed

text \<open>
  C8. \<open>MakeList_Linear\<close> has no guard for \<open>count = 1\<close>: it divides \<open>float(0)\<close> by
  \<open>float(count - 1) = 0\<close> and converts the outcome to \<open>size_t\<close>.
\<close>

theorem MakeList_Linear_one: "MakeList_Linear 1 = Inl DivideByZero"
  by (simp add: MakeList_Linear_def Linear_value_def fdiv_def)

text \<open>
  C7. \<open>MakeList_Log\<close> divides by \<open>maxValue = log(float(count))\<close>, not by \<open>log(count + 1)\<close>.
  For \<open>count = 1\<close> that is \<open>log 1 = 0\<close>: the generator divides by zero and converts the
  outcome to \<open>size_t\<close>, where the claim has the value \<open>round(V * log 2 / log 2) = V\<close>. (For
  \<open>count = 2\<close> the same divisor puts the second value above \<open>c_maxValue\<close>, lemma
  \<open>MakeList_Log_two\<close>.)
\<close>

theorem MakeList_Log_one: "MakeList_Log 1 = Inl DivideByZero"
  by (simp add: MakeList_Log_def Log_value_def Log_maxValue_def fdiv_def)

end
